theory Spec2Isabelle
  imports Main
begin

section \<open>Values, errors and promises\<close>

text \<open>
  The events module of Miniflare (\<^verbatim>\<open>src/modules/events.ts\<close>) is modelled with explicit
  state passing. Objects (requests, events, responses) are references, and the three
  module-level \<^verbatim>\<open>WeakMap\<close>s are maps from event references to their values.
\<close>

type_synonym ref = nat

datatype jsval = JUndefined | JNull | JNum int | JStr string

text \<open>
  What is thrown, or what a promise rejects with: an error object, or any other value
  (\<^verbatim>\<open>throw null\<close>, \<^verbatim>\<open>Promise.reject()\<close>).
\<close>

datatype error =
    Error string
  | TypeError string
  | AssertionError string
  | FetchError string string
  | Thrown jsval

text \<open>
  Reading \<^verbatim>\<open>e.stack\<close>. On an error object it is a text that starts with the error's
  name and message; on \<^verbatim>\<open>null\<close> and \<^verbatim>\<open>undefined\<close> the read itself throws a
  \<^verbatim>\<open>TypeError\<close>; on another value it is \<^verbatim>\<open>undefined\<close>, which the log records as
  that word.
\<close>

definition cannot_read_stack :: error where
  "cannot_read_stack = TypeError ''Cannot read properties of null or undefined (reading stack)''"

fun stack :: "error \<Rightarrow> error + string" where
  "stack (Error m) = Inr (''Error: '' @ m)"
| "stack (TypeError m) = Inr (''TypeError: '' @ m)"
| "stack (AssertionError m) = Inr (''AssertionError: '' @ m)"
| "stack (FetchError m t) = Inr (''FetchError: '' @ m)"
| "stack (Thrown JNull) = Inl cannot_read_stack"
| "stack (Thrown JUndefined) = Inl cannot_read_stack"
| "stack (Thrown v) = Inr ''undefined''"

text \<open>
  A promise is described by how it settles: fulfilled or rejected at a logical time, or
  never. The time only orders settlements against each other.
\<close>

datatype 'a promise = Fulfilled nat 'a | Rejected nat error | Pending

text \<open>An argument typed \<^verbatim>\<open>T | Promise<T>\<close>.\<close>

datatype 'a or_promise = Plain 'a | Prom "'a promise"

fun Promise_resolve :: "'a or_promise \<Rightarrow> 'a promise" where
  "Promise_resolve (Plain v) = Fulfilled 0 v"
| "Promise_resolve (Prom p) = p"

text \<open>What an \<^verbatim>\<open>async\<close> function does at its end, and what \<^verbatim>\<open>await\<close> gives.\<close>

datatype 'a completion = Returns 'a | Throws error | NeverReturns

fun await :: "'a promise \<Rightarrow> 'a completion" where
  "await (Fulfilled t v) = Returns v"
| "await (Rejected t e) = Throws e"
| "await Pending = NeverReturns"

text \<open>
  \<^verbatim>\<open>Promise.all\<close>, called at the logical time \<open>clock\<close>. It subscribes to its inputs
  in the order of the list, so it sees an input that has settled before the call at the
  time of the call, and the inputs that have settled by then in the order of the list; an
  input that settles later it sees when it settles. It rejects with the reason of the
  rejection it sees first (the earlier in the list among those it sees at the same time),
  whatever the others do; it fulfils with the values in the order of the inputs once all
  are fulfilled; it stays pending otherwise.
\<close>

fun first_rejection :: "nat \<Rightarrow> 'a promise list \<Rightarrow> (nat \<times> error) option" where
  "first_rejection clock [] = None"
| "first_rejection clock (Rejected t e # ps) =
     (case first_rejection clock ps of
        None \<Rightarrow> Some (max clock t, e)
      | Some (t', e') \<Rightarrow>
          if max clock t \<le> t' then Some (max clock t, e) else Some (t', e'))"
| "first_rejection clock (p # ps) = first_rejection clock ps"

fun fulfilled_values :: "'a promise list \<Rightarrow> (nat \<times> 'a list) option" where
  "fulfilled_values [] = Some (0, [])"
| "fulfilled_values (Fulfilled t v # ps) =
     (case fulfilled_values ps of
        None \<Rightarrow> None
      | Some (t', vs) \<Rightarrow> Some (max t t', v # vs))"
| "fulfilled_values (p # ps) = None"

definition Promise_all :: "nat \<Rightarrow> 'a promise list \<Rightarrow> 'a list promise" where
  "Promise_all clock ps =
     (case first_rejection clock ps of
        Some (t, e) \<Rightarrow> Rejected t e
      | None \<Rightarrow>
          (case fulfilled_values ps of
             Some (t, vs) \<Rightarrow> Fulfilled (max clock t) vs
           | None \<Rightarrow> Pending))"

section \<open>Requests, events and the state of the module\<close>

text \<open>Header names are kept in lower case, as \<^verbatim>\<open>Headers\<close> normalises them.\<close>

record request =
  url :: string
  http_method :: string
  headers :: "string \<rightharpoonup> string"
  body :: string

text \<open>
  A listener is a callable handed the event. The event's methods return nothing and its
  bookkeeping is hidden, so what a listener does to a dispatch is the sequence of calls
  it makes before it returns or throws: \<^verbatim>\<open>e.respondWith(r)\<close>,
  \<^verbatim>\<open>e.passThroughOnException()\<close>, \<^verbatim>\<open>e.waitUntil(p)\<close>, a change of
  \<^verbatim>\<open>e.request\<close> (here \<^verbatim>\<open>e.request.headers.set(k, v)\<close>), an effect on the outside
  world, and \<^verbatim>\<open>throw\<close>. These are the calls of its synchronous part; what
  asynchronous code of a listener does later shows in how the promises it handed over
  settle, and a call of \<^verbatim>\<open>waitUntil\<close> made after the dispatch has returned is a
  change of the final state. A listener registers no listener.
\<close>

datatype action =
    RespondWith "ref option or_promise"
  | PassThroughOnException
  | WaitUntil "jsval promise"
  | SetRequestHeader string string
  | Emit string
  | Throw error

type_synonym listener = "action list"

datatype event_obj = FetchEventObj ref | ScheduledEventObj int string

record state =
  nextId :: nat
  requests :: "ref \<rightharpoonup> request"
  events :: "ref \<rightharpoonup> event_obj"
  responseMap :: "ref \<rightharpoonup> ref option promise"
  passThroughMap :: "ref \<rightharpoonup> bool"
  waitUntilMap :: "ref \<rightharpoonup> jsval promise list"
  responseWaitUntil :: "ref \<rightharpoonup> ref"
  listeners :: "string \<rightharpoonup> listener list"
  warnings :: "string list"
  effects :: "string list"
  fetched :: "(ref \<times> request) list"

text \<open>
  \<^verbatim>\<open>responseWaitUntil\<close> is the \<^verbatim>\<open>waitUntil\<close> property of each response object: the
  closure of \<^verbatim>\<open>dispatchFetch\<close>, represented by the event it closes over.
  \<^verbatim>\<open>fetched\<close> records the calls of the transport \<^verbatim>\<open>fetch\<close>: the request object
  passed and its contents at the call.

  A fresh object is no key of any \<^verbatim>\<open>WeakMap\<close>: references from \<^verbatim>\<open>nextId\<close> on are unused.
\<close>

definition wf :: "state \<Rightarrow> bool" where
  "wf s \<longleftrightarrow>
     (\<forall>i. nextId s \<le> i \<longrightarrow>
        requests s i = None \<and> events s i = None \<and> responseMap s i = None \<and>
        passThroughMap s i = None \<and> waitUntilMap s i = None)"

subsection \<open>Event constructors and methods\<close>

definition new_FetchEvent :: "ref \<Rightarrow> state \<Rightarrow> ref \<times> state" where
  "new_FetchEvent rq s =
     (nextId s,
      s\<lparr>nextId := Suc (nextId s),
        events := (events s)(nextId s \<mapsto> FetchEventObj rq),
        waitUntilMap := (waitUntilMap s)(nextId s \<mapsto> [])\<rparr>)"

definition new_ScheduledEvent :: "int \<Rightarrow> string \<Rightarrow> state \<Rightarrow> ref \<times> state" where
  "new_ScheduledEvent scheduledTime cron s =
     (nextId s,
      s\<lparr>nextId := Suc (nextId s),
        events := (events s)(nextId s \<mapsto> ScheduledEventObj scheduledTime cron),
        waitUntilMap := (waitUntilMap s)(nextId s \<mapsto> [])\<rparr>)"

definition respondWith :: "ref \<Rightarrow> ref option or_promise \<Rightarrow> state \<Rightarrow> state" where
  "respondWith e response s =
     s\<lparr>responseMap := (responseMap s)(e \<mapsto> Promise_resolve response)\<rparr>"

definition passThroughOnException :: "ref \<Rightarrow> state \<Rightarrow> state" where
  "passThroughOnException e s = s\<lparr>passThroughMap := (passThroughMap s)(e \<mapsto> True)\<rparr>"

definition waitUntil :: "ref \<Rightarrow> jsval promise \<Rightarrow> state \<Rightarrow> state" where
  "waitUntil e p s =
     (case waitUntilMap s e of
        None \<Rightarrow> s
      | Some ps \<Rightarrow> s\<lparr>waitUntilMap := (waitUntilMap s)(e \<mapsto> ps @ [p])\<rparr>)"

text \<open>\<^verbatim>\<open>request.clone()\<close>: a new request object with the same contents.\<close>

definition Request_clone :: "ref \<Rightarrow> state \<Rightarrow> (ref \<times> state) option" where
  "Request_clone rq s =
     (case requests s rq of
        None \<Rightarrow> None
      | Some q \<Rightarrow>
          Some (nextId s,
                s\<lparr>nextId := Suc (nextId s), requests := (requests s)(nextId s \<mapsto> q)\<rparr>))"

definition headers_set :: "string \<Rightarrow> string \<Rightarrow> request \<Rightarrow> request" where
  "headers_set k v q = q\<lparr>headers := (headers q)(k \<mapsto> v)\<rparr>"

definition headers_delete :: "string \<Rightarrow> request \<Rightarrow> request" where
  "headers_delete k q = q\<lparr>headers := (headers q)(k := None)\<rparr>"

subsection \<open>Running a listener\<close>

text \<open>
  One call of a listener on an event. A \<^verbatim>\<open>ScheduledEvent\<close> has only \<^verbatim>\<open>waitUntil\<close>:
  calling another method on it is a \<^verbatim>\<open>TypeError\<close>.
\<close>

definition not_a_function :: error where
  "not_a_function = TypeError ''not a function''"

fun perform :: "action \<Rightarrow> ref \<Rightarrow> state \<Rightarrow> error option \<times> state" where
  "perform (Throw err) e s = (Some err, s)"
| "perform (Emit x) e s = (None, s\<lparr>effects := effects s @ [x]\<rparr>)"
| "perform a e s =
     (case events s e of
        None \<Rightarrow> (Some not_a_function, s)
      | Some (FetchEventObj rq) \<Rightarrow>
          (case a of
             RespondWith r \<Rightarrow> (None, respondWith e r s)
           | PassThroughOnException \<Rightarrow> (None, passThroughOnException e s)
           | WaitUntil p \<Rightarrow> (None, waitUntil e p s)
           | SetRequestHeader k v \<Rightarrow>
               (None, s\<lparr>requests := (requests s)(rq := map_option (headers_set k v) (requests s rq))\<rparr>)
           | _ \<Rightarrow> (None, s))
      | Some (ScheduledEventObj t c) \<Rightarrow>
          (case a of
             WaitUntil p \<Rightarrow> (None, waitUntil e p s)
           | _ \<Rightarrow> (Some not_a_function, s)))"

fun invoke :: "listener \<Rightarrow> ref \<Rightarrow> state \<Rightarrow> error option \<times> state" where
  "invoke [] e s = (None, s)"
| "invoke (a # as) e s =
     (case perform a e s of
        (Some err, s') \<Rightarrow> (Some err, s')
      | (None, s') \<Rightarrow> invoke as e s')"

section \<open>The listener registry\<close>

text \<open>
  \<^verbatim>\<open>_listeners\<close> is a plain object \<^verbatim>\<open>{}\<close>: \<^verbatim>\<open>type in this._listeners\<close> also holds for
  the property names it inherits from \<^verbatim>\<open>Object.prototype\<close>, and reading such a name
  gives the inherited member, which has no \<^verbatim>\<open>push\<close>.
\<close>

definition Object_prototype_keys :: "string list" where
  "Object_prototype_keys =
     [''constructor'', ''__proto__'', ''hasOwnProperty'', ''isPrototypeOf'',
      ''propertyIsEnumerable'', ''toLocaleString'', ''toString'', ''valueOf'',
      ''__defineGetter__'', ''__defineSetter__'', ''__lookupGetter__'', ''__lookupSetter__'']"

definition has_property :: "(string \<rightharpoonup> listener list) \<Rightarrow> string \<Rightarrow> bool" where
  "has_property m k \<longleftrightarrow> m k \<noteq> None \<or> k \<in> set Object_prototype_keys"

definition invalid_event_type :: "string \<Rightarrow> string" where
  "invalid_event_type type =
     ''Invalid event type: expected \"fetch\" | \"scheduled\", got \"'' @ type @ ''\"''"

definition addEventListener :: "string \<Rightarrow> listener \<Rightarrow> state \<Rightarrow> error option \<times> state" where
  "addEventListener type l s =
     (let s1 = (if type \<noteq> ''fetch'' \<and> type \<noteq> ''scheduled''
                then s\<lparr>warnings := warnings s @ [invalid_event_type type]\<rparr> else s);
          s2 = (if \<not> has_property (listeners s1) type
                then s1\<lparr>listeners := (listeners s1)(type \<mapsto> [])\<rparr> else s1)
      in case listeners s2 type of
           Some ls \<Rightarrow> (None, s2\<lparr>listeners := (listeners s2)(type \<mapsto> ls @ [l])\<rparr>)
         | None \<Rightarrow> (Some not_a_function, s2))"

definition resetEventListeners :: "state \<Rightarrow> state" where
  "resetEventListeners s = s\<lparr>listeners := Map.empty\<rparr>"

text \<open>
  A module-style scheduled handler \<^verbatim>\<open>(controller, environment, ctx) => any\<close>: the calls it
  makes through \<^verbatim>\<open>ctx\<close> and on the outside world, and the value it returns or the error
  it throws.
\<close>

datatype ctx_call = CtxWaitUntil "jsval promise" | CtxEmit string

record module_scheduled_listener =
  calls :: "ctx_call list"
  outcome :: "error + jsval or_promise"

fun ctx_action :: "ctx_call \<Rightarrow> action" where
  "ctx_action (CtxWaitUntil p) = WaitUntil p"
| "ctx_action (CtxEmit x) = Emit x"

definition module_scheduled_adapter :: "module_scheduled_listener \<Rightarrow> listener" where
  "module_scheduled_adapter m =
     map ctx_action (calls m) @
     (case outcome m of
        Inl err \<Rightarrow> [Throw err]
      | Inr res \<Rightarrow> [WaitUntil (Promise_resolve res)])"

definition addModuleScheduledListener ::
  "module_scheduled_listener \<Rightarrow> state \<Rightarrow> error option \<times> state" where
  "addModuleScheduledListener m s = addEventListener ''scheduled'' (module_scheduled_adapter m) s"

section \<open>Dispatch\<close>

text \<open>
  The closure \<^verbatim>\<open>waitUntil\<close> of \<^verbatim>\<open>dispatchFetch\<close>, for the event it closes over,
  called at the logical time \<open>clock\<close>.
\<close>

definition no_wait_until :: error where
  "no_wait_until = AssertionError ''waitUntilPromises''"

definition waitUntil_accessor :: "state \<Rightarrow> ref \<Rightarrow> nat \<Rightarrow> jsval list completion" where
  "waitUntil_accessor s e clock =
     (case waitUntilMap s e of
        None \<Rightarrow> Throws no_wait_until
      | Some ps \<Rightarrow> await (Promise_all clock ps))"

text \<open>\<^verbatim>\<open>response.waitUntil()\<close> on a response object.\<close>

definition call_waitUntil :: "state \<Rightarrow> ref \<Rightarrow> nat \<Rightarrow> jsval list completion" where
  "call_waitUntil s r clock =
     (case responseWaitUntil s r of
        None \<Rightarrow> Throws not_a_function
      | Some e \<Rightarrow> waitUntil_accessor s e clock)"

datatype loop_exit = Responded ref | Failed error | Fallback | Hung

text \<open>
  The \<^verbatim>\<open>catch\<close> block of the loop. With the flag set it reads \<^verbatim>\<open>e.stack\<close> for the
  warning: when that read throws, the block is left with the \<^verbatim>\<open>TypeError\<close>, nothing is
  logged and the loop is not left by \<^verbatim>\<open>break\<close>.
\<close>

definition on_failure :: "error \<Rightarrow> ref \<Rightarrow> state \<Rightarrow> loop_exit \<times> state" where
  "on_failure err e s =
     (if passThroughMap s e = Some True
      then (case stack err of
              Inl type_error \<Rightarrow> (Failed type_error, s)
            | Inr msg \<Rightarrow> (Fallback, s\<lparr>warnings := warnings s @ [msg]\<rparr>))
      else (Failed err, s))"

text \<open>
  The loop over the fetch listeners. \<^verbatim>\<open>Fallback\<close> is leaving the loop, by \<^verbatim>\<open>break\<close> or
  at its end; \<^verbatim>\<open>Hung\<close> is an \<^verbatim>\<open>await\<close> of a response that never settles.
\<close>

fun fetch_loop :: "listener list \<Rightarrow> ref \<Rightarrow> state \<Rightarrow> loop_exit \<times> state" where
  "fetch_loop [] e s = (Fallback, s)"
| "fetch_loop (l # ls) e s =
     (case invoke l e s of
        (Some err, s1) \<Rightarrow> on_failure err e s1
      | (None, s1) \<Rightarrow>
          (case responseMap s1 e of
             None \<Rightarrow> fetch_loop ls e s1
           | Some Pending \<Rightarrow> (Hung, s1)
           | Some (Rejected t err) \<Rightarrow> on_failure err e s1
           | Some (Fulfilled t None) \<Rightarrow> fetch_loop ls e s1
           | Some (Fulfilled t (Some r)) \<Rightarrow>
               (Responded r, s1\<lparr>responseWaitUntil := (responseWaitUntil s1)(r \<mapsto> e)\<rparr>)))"

definition fetch_listeners :: "state \<Rightarrow> listener list" where
  "fetch_listeners s = (case listeners s ''fetch'' of None \<Rightarrow> [] | Some ls \<Rightarrow> ls)"

definition scheduled_listeners :: "state \<Rightarrow> listener list" where
  "scheduled_listeners s = (case listeners s ''scheduled'' of None \<Rightarrow> [] | Some ls \<Rightarrow> ls)"

definition no_upstream :: error where
  "no_upstream =
     FetchError
       (''No fetch handler responded and unable to proxy request to upstream: no upstream specified. '' @
        ''Have you added a fetch event listener that responds with a Response?'')
       ''upstream''"

definition not_a_request :: error where
  "not_a_request = TypeError ''request.clone is not a function''"

text \<open>
  Lines 166 to 177 of \<^verbatim>\<open>dispatchFetch\<close>, after the loop: \<^verbatim>\<open>request\<close> is the parameter
  of \<^verbatim>\<open>dispatchFetch\<close>, \<^verbatim>\<open>event\<close> the event of this dispatch, and \<^verbatim>\<open>transport\<close> the
  network: what \<^verbatim>\<open>fetch\<close> answers to a request.
\<close>

definition fallback ::
  "ref \<Rightarrow> string option \<Rightarrow> (request \<Rightarrow> ref promise) \<Rightarrow> ref \<Rightarrow> state \<Rightarrow> ref completion \<times> state" where
  "fallback request upstreamUrl transport event s =
     (case upstreamUrl of
        None \<Rightarrow> (Throws no_upstream, s)
      | Some u \<Rightarrow>
          (case requests s request of
             None \<Rightarrow> (Throws not_a_request, s)
           | Some q \<Rightarrow>
               (let q' = headers_delete ''host'' q;
                    s1 = s\<lparr>requests := (requests s)(request \<mapsto> q'),
                           fetched := fetched s @ [(request, q')]\<rparr>
                in case transport q' of
                     Fulfilled t r \<Rightarrow>
                       (Returns r, s1\<lparr>responseWaitUntil := (responseWaitUntil s1)(r \<mapsto> event)\<rparr>)
                   | Rejected t err \<Rightarrow> (Throws err, s1)
                   | Pending \<Rightarrow> (NeverReturns, s1))))"

text \<open>
  Line 138 of \<^verbatim>\<open>dispatchFetch\<close>: the duplicate of the request and the event that wraps
  it. The result is the duplicate, the event and the state in which the loop starts.
\<close>

definition dispatchFetch_event :: "ref \<Rightarrow> state \<Rightarrow> (ref \<times> ref \<times> state) option" where
  "dispatchFetch_event request s =
     (case Request_clone request s of
        None \<Rightarrow> None
      | Some (c, s1) \<Rightarrow>
          (case new_FetchEvent c s1 of (event, s2) \<Rightarrow> Some (c, event, s2)))"

text \<open>
  Lines 138 to 164 of \<^verbatim>\<open>dispatchFetch\<close>, up to the end of the loop. The result is the
  event and how the loop was left.
\<close>

definition dispatchFetch_listeners :: "ref \<Rightarrow> state \<Rightarrow> (ref \<times> loop_exit \<times> state) option" where
  "dispatchFetch_listeners request s =
     (case dispatchFetch_event request s of
        None \<Rightarrow> None
      | Some (c, event, s2) \<Rightarrow> Some (event, fetch_loop (fetch_listeners s2) event s2))"

definition dispatchFetch ::
  "ref \<Rightarrow> string option \<Rightarrow> (request \<Rightarrow> ref promise) \<Rightarrow> state \<Rightarrow> ref completion \<times> state" where
  "dispatchFetch request upstreamUrl transport s =
     (case dispatchFetch_listeners request s of
        None \<Rightarrow> (Throws not_a_request, s)
      | Some (event, Responded r, s3) \<Rightarrow> (Returns r, s3)
      | Some (event, Failed err, s3) \<Rightarrow> (Throws err, s3)
      | Some (event, Hung, s3) \<Rightarrow> (NeverReturns, s3)
      | Some (event, Fallback, s3) \<Rightarrow> fallback request upstreamUrl transport event s3)"

text \<open>The loop of \<^verbatim>\<open>dispatchScheduled\<close>: no \<^verbatim>\<open>try\<close>, a listener that throws ends it.\<close>

fun scheduled_loop :: "listener list \<Rightarrow> ref \<Rightarrow> state \<Rightarrow> error option \<times> state" where
  "scheduled_loop [] e s = (None, s)"
| "scheduled_loop (l # ls) e s =
     (case invoke l e s of
        (Some err, s1) \<Rightarrow> (Some err, s1)
      | (None, s1) \<Rightarrow> scheduled_loop ls e s1)"

text \<open>
  \<^verbatim>\<open>now\<close> is the value of \<^verbatim>\<open>Date.now()\<close> at the call, and \<open>clock\<close> the logical
  time of the call: the listeners run synchronously, so it is also the time at which
  \<^verbatim>\<open>Promise.all\<close> is called.
\<close>

definition dispatchScheduled ::
  "int option \<Rightarrow> string option \<Rightarrow> int \<Rightarrow> nat \<Rightarrow> state \<Rightarrow> jsval list completion \<times> state" where
  "dispatchScheduled scheduledTime cron now clock s =
     (case new_ScheduledEvent
             (case scheduledTime of None \<Rightarrow> now | Some t \<Rightarrow> t)
             (case cron of None \<Rightarrow> [] | Some c \<Rightarrow> c) s of
        (event, s1) \<Rightarrow>
          (case scheduled_loop (scheduled_listeners s1) event s1 of
             (Some err, s2) \<Rightarrow> (Throws err, s2)
           | (None, s2) \<Rightarrow> (waitUntil_accessor s2 event clock, s2)))"

section \<open>What a listener does, read off its calls\<close>

text \<open>
  On a \<^verbatim>\<open>FetchEvent\<close> every method exists, so a listener runs up to its first
  \<^verbatim>\<open>throw\<close>: \<open>executed\<close> is that part and \<open>thrown\<close> the error, if any.
\<close>

fun thrown :: "listener \<Rightarrow> error option" where
  "thrown [] = None"
| "thrown (Throw err # as) = Some err"
| "thrown (a # as) = thrown as"

fun executed :: "listener \<Rightarrow> action list" where
  "executed [] = []"
| "executed (Throw err # as) = []"
| "executed (a # as) = a # executed as"

fun emits :: "action list \<Rightarrow> string list" where
  "emits [] = []"
| "emits (Emit x # as) = x # emits as"
| "emits (a # as) = emits as"

fun tasks :: "action list \<Rightarrow> jsval promise list" where
  "tasks [] = []"
| "tasks (WaitUntil p # as) = p # tasks as"
| "tasks (a # as) = tasks as"

fun grants :: "action list \<Rightarrow> bool" where
  "grants [] = False"
| "grants (PassThroughOnException # as) = True"
| "grants (a # as) = grants as"

text \<open>The response in the slot after these calls, \<open>None\<close> when none of them sets one.\<close>

fun last_response :: "action list \<Rightarrow> ref option promise option" where
  "last_response [] = None"
| "last_response (RespondWith r # as) =
     (case last_response as of None \<Rightarrow> Some (Promise_resolve r) | Some p \<Rightarrow> Some p)"
| "last_response (a # as) = last_response as"

text \<open>
  A listener fails when it throws, or else when the response it leaves in the slot
  rejects; it passes when it returns and leaves no response, or one that fulfils with
  \<^verbatim>\<open>undefined\<close>.
\<close>

definition failure :: "listener \<Rightarrow> error option" where
  "failure l =
     (case thrown l of
        Some err \<Rightarrow> Some err
      | None \<Rightarrow> (case last_response l of Some (Rejected t err) \<Rightarrow> Some err | _ \<Rightarrow> None))"

definition passes :: "listener \<Rightarrow> bool" where
  "passes l \<longleftrightarrow>
     thrown l = None \<and>
     (case last_response l of None \<Rightarrow> True | Some (Fulfilled t None) \<Rightarrow> True | _ \<Rightarrow> False)"

text \<open>
  The response slot of an event holds nothing that a later \<^verbatim>\<open>await\<close> would turn into
  a response or a failure.
\<close>

definition slot_quiet :: "state \<Rightarrow> ref \<Rightarrow> bool" where
  "slot_quiet s e \<longleftrightarrow>
     (case responseMap s e of None \<Rightarrow> True | Some (Fulfilled t None) \<Rightarrow> True | _ \<Rightarrow> False)"

text \<open>A promise that fulfils, at some time, with the given value.\<close>

definition fulfils_with :: "'a promise \<Rightarrow> 'a \<Rightarrow> bool" where
  "fulfils_with p x \<longleftrightarrow> (case p of Fulfilled t v \<Rightarrow> v = x | _ \<Rightarrow> False)"

text \<open>The calls a \<^verbatim>\<open>ScheduledEvent\<close> supports.\<close>

fun sched_ok :: "action \<Rightarrow> bool" where
  "sched_ok (WaitUntil p) = True"
| "sched_ok (Emit x) = True"
| "sched_ok a = False"

text \<open>The state after calling these listeners on the event one after the other.\<close>

fun run_all :: "listener list \<Rightarrow> ref \<Rightarrow> state \<Rightarrow> state" where
  "run_all [] e s = s"
| "run_all (l # ls) e s = run_all ls e (snd (invoke l e s))"

section \<open>Concrete states\<close>

text \<open>
  A module with no listener and no event yet, holding one inbound request (reference 0),
  and the same module with a given registry entry.
\<close>

definition request0 :: request where
  "request0 =
     \<lparr>url = ''http://localhost:8787/'', http_method = ''GET'',
      headers = [''host'' \<mapsto> ''localhost:8787''], body = []\<rparr>"

definition init :: state where
  "init =
     \<lparr>nextId = 1, requests = [0 \<mapsto> request0], events = Map.empty,
      responseMap = Map.empty, passThroughMap = Map.empty, waitUntilMap = Map.empty,
      responseWaitUntil = Map.empty, listeners = Map.empty,
      warnings = [], effects = [], fetched = []\<rparr>"

definition registered :: "string \<Rightarrow> listener list \<Rightarrow> state" where
  "registered type ls = init\<lparr>listeners := [type \<mapsto> ls]\<rparr>"

text \<open>A module-style scheduled handler that registers one task and returns a value.\<close>

definition handler9 :: module_scheduled_listener where
  "handler9 =
     \<lparr>calls = [CtxEmit ''ran'', CtxWaitUntil (Fulfilled 5 (JNum 1))],
      outcome = Inr (Plain (JNum 2))\<rparr>"

text \<open>A network that answers every request with the response object 100.\<close>

definition upstream_ok :: "request \<Rightarrow> ref promise" where
  "upstream_ok q = Fulfilled 1 100"

section \<open>Aggregation of promises\<close>


lemma first_rejection_None:
  "first_rejection clock ps = None \<longleftrightarrow> (\<forall>t e. Rejected t e \<notin> set ps)"
  by (induction clock ps rule: first_rejection.induct) (auto split: option.splits if_splits)

lemma first_rejection_index:
  "first_rejection clock ps = Some (T, e0) \<Longrightarrow>
     \<exists>i t0. i < length ps \<and> ps ! i = Rejected t0 e0 \<and> T = max clock t0 \<and>
       (\<forall>j t' e'. j < length ps \<and> ps ! j = Rejected t' e' \<longrightarrow>
          T \<le> max clock t' \<and> (j < i \<longrightarrow> T < max clock t'))"
proof (induction ps arbitrary: T e0)
  case Nil
  then show ?case by simp
next
  case (Cons p ps)
  show ?case
  proof (cases "\<exists>t e. p = Rejected t e")
    case True
    then obtain t e where p: "p = Rejected t e" by blast
    show ?thesis
    proof (cases "first_rejection clock ps")
      case None
      with Cons.prems p have T: "T = max clock t" "e0 = e" by simp_all
      from None have no: "\<And>j t' e'. j < length ps \<Longrightarrow> ps ! j \<noteq> Rejected t' e'"
        by (auto simp: first_rejection_None dest: nth_mem)
      have "\<forall>j t' e'. j < length (p # ps) \<and> (p # ps) ! j = Rejected t' e' \<longrightarrow>
          T \<le> max clock t' \<and> (j < 0 \<longrightarrow> T < max clock t')"
        using T no p by (auto simp: nth_Cons split: nat.splits)
      with T p show ?thesis by (intro exI [of _ 0] exI [of _ t]) simp
    next
      case (Some te)
      obtain t1 e1 where te: "te = (t1, e1)" by (cases te)
      from Cons.IH [of t1 e1] Some te obtain i t0
        where ih: "i < length ps" "ps ! i = Rejected t0 e1" "t1 = max clock t0"
          "\<forall>j t' e'. j < length ps \<and> ps ! j = Rejected t' e' \<longrightarrow>
             t1 \<le> max clock t' \<and> (j < i \<longrightarrow> t1 < max clock t')"
        by blast
      show ?thesis
      proof (cases "max clock t \<le> t1")
        case True
        with Cons.prems Some te p have T: "T = max clock t" "e0 = e"
          by (auto split: if_splits)
        have "\<forall>j t' e'. j < length (p # ps) \<and> (p # ps) ! j = Rejected t' e' \<longrightarrow>
            T \<le> max clock t' \<and> (j < 0 \<longrightarrow> T < max clock t')"
          using T True ih(4) p by (fastforce simp: nth_Cons split: nat.splits)
        with T p show ?thesis by (intro exI [of _ 0] exI [of _ t]) simp
      next
        case False
        with Cons.prems Some te p have T: "T = t1" "e0 = e1"
          by (auto split: if_splits)
        have "\<forall>j t' e'. j < length (p # ps) \<and> (p # ps) ! j = Rejected t' e' \<longrightarrow>
            T \<le> max clock t' \<and> (j < Suc i \<longrightarrow> T < max clock t')"
          using T False ih(4) p by (fastforce simp: nth_Cons split: nat.splits)
        with T ih(1,2,3) show ?thesis by (intro exI [of _ "Suc i"] exI [of _ t0]) simp
      qed
    qed
  next
    case False
    with Cons.prems have "first_rejection clock ps = Some (T, e0)" by (cases p) simp_all
    from Cons.IH [OF this] obtain i t0
      where ih: "i < length ps" "ps ! i = Rejected t0 e0" "T = max clock t0"
        "\<forall>j t' e'. j < length ps \<and> ps ! j = Rejected t' e' \<longrightarrow>
           T \<le> max clock t' \<and> (j < i \<longrightarrow> T < max clock t')"
      by blast
    have "\<forall>j t' e'. j < length (p # ps) \<and> (p # ps) ! j = Rejected t' e' \<longrightarrow>
        T \<le> max clock t' \<and> (j < Suc i \<longrightarrow> T < max clock t')"
      using ih(4) False by (fastforce simp: nth_Cons split: nat.splits)
    with ih(1,2,3) show ?thesis by (intro exI [of _ "Suc i"] exI [of _ t0]) simp
  qed
qed

lemma first_rejection_fulfilled [simp]:
  "first_rejection clock (map (\<lambda>(t, v). Fulfilled t v) tvs) = None"
  by (induction tvs) auto

lemma fulfilled_values_map:
  "\<exists>t. fulfilled_values (map (\<lambda>(t, v). Fulfilled t v) tvs) = Some (t, map snd tvs)"
  by (induction tvs) auto

lemma Promise_all_fulfilled:
  "\<exists>t. Promise_all clock (map (\<lambda>(t, v). Fulfilled t v) tvs) = Fulfilled t (map snd tvs)"
  using fulfilled_values_map [of tvs] by (auto simp: Promise_all_def)

lemma fulfilled_values_all2:
  "fulfilled_values ps = Some (t, vs) \<Longrightarrow> list_all2 (\<lambda>p v. \<exists>t. p = Fulfilled t v) ps vs"
  by (induction ps arbitrary: t vs rule: fulfilled_values.induct) (auto split: option.splits)

lemma Promise_all_Fulfilled_D:
  "Promise_all clock ps = Fulfilled t vs \<Longrightarrow> list_all2 (\<lambda>p v. \<exists>t. p = Fulfilled t v) ps vs"
  by (auto simp: Promise_all_def fulfilled_values_all2 split: option.splits)

lemma Promise_all_rejected:
  assumes "Rejected t e \<in> set ps"
  shows "\<exists>i t0 e0. i < length ps \<and> ps ! i = Rejected t0 e0 \<and>
           Promise_all clock ps = Rejected (max clock t0) e0 \<and>
           (\<forall>j t' e'. j < length ps \<and> ps ! j = Rejected t' e' \<longrightarrow>
              max clock t0 \<le> max clock t' \<and> (j < i \<longrightarrow> max clock t0 < max clock t'))"
proof -
  from assms have "first_rejection clock ps \<noteq> None" by (auto simp: first_rejection_None)
  then obtain T e0 where f: "first_rejection clock ps = Some (T, e0)" by auto
  from first_rejection_index [OF f] obtain i t0 where "i < length ps" "ps ! i = Rejected t0 e0"
    "T = max clock t0"
    "\<forall>j t' e'. j < length ps \<and> ps ! j = Rejected t' e' \<longrightarrow>
          T \<le> max clock t' \<and> (j < i \<longrightarrow> T < max clock t')"
    by blast
  with f show ?thesis by (auto simp: Promise_all_def)
qed

section \<open>What a call of a listener changes\<close>


lemmas event_defs = respondWith_def passThroughOnException_def waitUntil_def

lemma perform_frame:
  "perform a e s = (x, s') \<Longrightarrow>
     nextId s' = nextId s \<and> events s' = events s \<and> listeners s' = listeners s \<and>
     warnings s' = warnings s \<and> fetched s' = fetched s \<and>
     responseWaitUntil s' = responseWaitUntil s"
  by (cases a) (auto simp: event_defs split: option.splits event_obj.splits)

lemma invoke_frame:
  "invoke l e s = (x, s') \<Longrightarrow>
     nextId s' = nextId s \<and> events s' = events s \<and> listeners s' = listeners s \<and>
     warnings s' = warnings s \<and> fetched s' = fetched s \<and>
     responseWaitUntil s' = responseWaitUntil s"
proof (induction l arbitrary: s)
  case Nil
  then show ?case by simp
next
  case (Cons a l)
  obtain y s1 where p: "perform a e s = (y, s1)" by (cases "perform a e s")
  show ?case
  proof (cases y)
    case None
    with Cons p perform_frame [OF p] show ?thesis by simp
  next
    case (Some err)
    with Cons p perform_frame [OF p] show ?thesis by simp
  qed
qed





subsection \<open>A listener called on a fetch event\<close>

lemma invoke_fetch_thrown:
  "events s e = Some (FetchEventObj c) \<Longrightarrow> fst (invoke l e s) = thrown l"
proof (induction l arbitrary: s)
  case Nil
  then show ?case by simp
next
  case (Cons a l)
  then show ?case
    by (cases a) (simp_all add: event_defs split: option.splits)
qed


lemma invoke_fetch_effects:
  "events s e = Some (FetchEventObj c) \<Longrightarrow>
     effects (snd (invoke l e s)) = effects s @ emits (executed l)"
proof (induction l arbitrary: s)
  case Nil
  then show ?case by simp
next
  case (Cons a l)
  then show ?case
    by (cases a) (simp_all add: event_defs split: option.splits)
qed

lemma invoke_fetch_tasks:
  "events s e = Some (FetchEventObj c) \<Longrightarrow> waitUntilMap s e = Some ps \<Longrightarrow>
     waitUntilMap (snd (invoke l e s)) e = Some (ps @ tasks (executed l))"
proof (induction l arbitrary: s ps)
  case Nil
  then show ?case by simp
next
  case (Cons a l)
  then show ?case
    by (cases a) (simp_all add: event_defs split: option.splits)
qed

lemma invoke_fetch_flag:
  "events s e = Some (FetchEventObj c) \<Longrightarrow>
     passThroughMap (snd (invoke l e s)) e =
       (if grants (executed l) then Some True else passThroughMap s e)"
proof (induction l arbitrary: s)
  case Nil
  then show ?case by simp
next
  case (Cons a l)
  then show ?case
    by (cases a) (simp_all add: event_defs split: option.splits)
qed

lemma invoke_fetch_response:
  "events s e = Some (FetchEventObj c) \<Longrightarrow>
     responseMap (snd (invoke l e s)) e =
       (case last_response (executed l) of None \<Rightarrow> responseMap s e | Some p \<Rightarrow> Some p)"
proof (induction l arbitrary: s)
  case Nil
  then show ?case by simp
next
  case (Cons a l)
  then show ?case
    by (cases a) (simp_all add: event_defs split: option.splits)
qed

lemma invoke_fetch_requests:
  "events s e = Some (FetchEventObj c) \<Longrightarrow> r \<noteq> c \<Longrightarrow>
     requests (snd (invoke l e s)) r = requests s r"
proof (induction l arbitrary: s)
  case Nil
  then show ?case by simp
next
  case (Cons a l)
  then show ?case
    by (cases a) (simp_all add: event_defs split: option.splits)
qed

lemma thrown_None_executed: "thrown l = None \<Longrightarrow> executed l = l"
  by (induction l rule: thrown.induct) auto

subsection \<open>A listener called on a scheduled event\<close>

lemma invoke_sched_ok:
  "events s e = Some (ScheduledEventObj t c) \<Longrightarrow>
     fst (invoke l e s) = None \<longleftrightarrow> list_all sched_ok l"
proof (induction l arbitrary: s)
  case Nil
  then show ?case by simp
next
  case (Cons a l)
  then show ?case
    by (cases a) (simp_all add: event_defs not_a_function_def split: option.splits)
qed

lemma invoke_sched_effects:
  "events s e = Some (ScheduledEventObj t c) \<Longrightarrow> list_all sched_ok l \<Longrightarrow>
     effects (snd (invoke l e s)) = effects s @ emits l"
proof (induction l arbitrary: s)
  case Nil
  then show ?case by simp
next
  case (Cons a l)
  then show ?case
    by (cases a) (simp_all add: event_defs split: option.splits)
qed

lemma invoke_sched_tasks:
  "events s e = Some (ScheduledEventObj t c) \<Longrightarrow> list_all sched_ok l \<Longrightarrow>
     waitUntilMap s e = Some ps \<Longrightarrow>
     waitUntilMap (snd (invoke l e s)) e = Some (ps @ tasks l)"
proof (induction l arbitrary: s ps)
  case Nil
  then show ?case by simp
next
  case (Cons a l)
  then show ?case
    by (cases a) (simp_all add: event_defs split: option.splits)
qed

section \<open>Scheduled dispatch\<close>


lemma scheduled_loop_frame:
  "scheduled_loop ls e s = (x, s') \<Longrightarrow>
     nextId s' = nextId s \<and> events s' = events s \<and> listeners s' = listeners s \<and>
     warnings s' = warnings s \<and> fetched s' = fetched s \<and>
     responseWaitUntil s' = responseWaitUntil s"
proof (induction ls arbitrary: s)
  case Nil
  then show ?case by simp
next
  case (Cons l ls)
  obtain y s1 where i: "invoke l e s = (y, s1)" by (cases "invoke l e s")
  show ?case
  proof (cases y)
    case None
    with Cons i invoke_frame [OF i] show ?thesis by simp
  next
    case (Some err)
    with Cons i invoke_frame [OF i] show ?thesis by simp
  qed
qed

lemma scheduled_loop_ok:
  assumes "events s e = Some (ScheduledEventObj t c)"
    and "\<forall>l \<in> set ls. list_all sched_ok l"
    and "waitUntilMap s e = Some ps"
  shows "fst (scheduled_loop ls e s) = None \<and>
         effects (snd (scheduled_loop ls e s)) = effects s @ concat (map emits ls) \<and>
         waitUntilMap (snd (scheduled_loop ls e s)) e = Some (ps @ concat (map tasks ls))"
  using assms
proof (induction ls arbitrary: s ps)
  case Nil
  then show ?case by simp
next
  case (Cons l ls)
  obtain y s1 where i: "invoke l e s = (y, s1)" by (cases "invoke l e s")
  from Cons.prems have ok: "list_all sched_ok l" by simp
  from invoke_sched_ok [OF Cons.prems(1), of l] ok i have y: "y = None" by simp
  from invoke_frame [OF i] Cons.prems(1) have ev: "events s1 e = Some (ScheduledEventObj t c)" by simp
  from invoke_sched_effects [OF Cons.prems(1) ok] i have ef: "effects s1 = effects s @ emits l" by simp
  from invoke_sched_tasks [OF Cons.prems(1) ok Cons.prems(3)] i
  have tk: "waitUntilMap s1 e = Some (ps @ tasks l)" by simp
  from Cons.prems(2) have rest: "\<forall>l \<in> set ls. list_all sched_ok l" by simp
  from Cons.IH [OF ev rest tk] i y ef show ?case by simp
qed

lemma scheduled_loop_None_D:
  assumes "events s e = Some (ScheduledEventObj t c)"
    and "fst (scheduled_loop ls e s) = None"
  shows "\<forall>l \<in> set ls. list_all sched_ok l"
  using assms
proof (induction ls arbitrary: s)
  case Nil
  then show ?case by simp
next
  case (Cons l ls)
  obtain y s1 where i: "invoke l e s = (y, s1)" by (cases "invoke l e s")
  from Cons.prems(2) i have y: "y = None" by (cases y) auto
  from invoke_sched_ok [OF Cons.prems(1), of l] i y have ok: "list_all sched_ok l" by simp
  from invoke_frame [OF i] Cons.prems(1) have ev: "events s1 e = Some (ScheduledEventObj t c)" by simp
  from Cons.prems(2) i y have "fst (scheduled_loop ls e s1) = None" by simp
  from Cons.IH [OF ev this] ok show ?case by simp
qed

lemma dispatchScheduled_unfold:
  "\<exists>s1 t c. events s1 (nextId s) = Some (ScheduledEventObj t c) \<and>
     waitUntilMap s1 (nextId s) = Some [] \<and> effects s1 = effects s \<and>
     dispatchScheduled st cr now clock s =
       (case scheduled_loop (scheduled_listeners s) (nextId s) s1 of
          (Some err, s2) \<Rightarrow> (Throws err, s2)
        | (None, s2) \<Rightarrow> (waitUntil_accessor s2 (nextId s) clock, s2))"
proof -
  define t where "t = (case st of None \<Rightarrow> now | Some t \<Rightarrow> t)"
  define c where "c = (case cr of None \<Rightarrow> [] | Some c \<Rightarrow> c)"
  define s1 where "s1 = snd (new_ScheduledEvent t c s)"
  have n: "new_ScheduledEvent t c s = (nextId s, s1)"
    by (simp add: s1_def new_ScheduledEvent_def)
  have ev: "events s1 (nextId s) = Some (ScheduledEventObj t c)"
    and w: "waitUntilMap s1 (nextId s) = Some []"
    and ls: "scheduled_listeners s1 = scheduled_listeners s"
    and ef: "effects s1 = effects s"
    by (simp_all add: s1_def new_ScheduledEvent_def scheduled_listeners_def)
  have "dispatchScheduled st cr now clock s =
       (case scheduled_loop (scheduled_listeners s) (nextId s) s1 of
          (Some err, s2) \<Rightarrow> (Throws err, s2)
        | (None, s2) \<Rightarrow> (waitUntil_accessor s2 (nextId s) clock, s2))"
    using n ls by (simp add: dispatchScheduled_def t_def c_def)
  with ev w ef show ?thesis by blast
qed

lemma dispatchScheduled_ok:
  assumes "\<forall>l \<in> set (scheduled_listeners s). list_all sched_ok l"
  shows "fst (dispatchScheduled st cr now clock s) =
           await (Promise_all clock (concat (map tasks (scheduled_listeners s)))) \<and>
         effects (snd (dispatchScheduled st cr now clock s)) =
           effects s @ concat (map emits (scheduled_listeners s)) \<and>
         waitUntilMap (snd (dispatchScheduled st cr now clock s)) (nextId s) =
           Some (concat (map tasks (scheduled_listeners s)))"
proof -
  from dispatchScheduled_unfold [of s st cr now clock] obtain s1 t c
    where ev: "events s1 (nextId s) = Some (ScheduledEventObj t c)"
      and w: "waitUntilMap s1 (nextId s) = Some []"
      and ef: "effects s1 = effects s"
      and d: "dispatchScheduled st cr now clock s =
       (case scheduled_loop (scheduled_listeners s) (nextId s) s1 of
          (Some err, s2) \<Rightarrow> (Throws err, s2)
        | (None, s2) \<Rightarrow> (waitUntil_accessor s2 (nextId s) clock, s2))"
    by blast
  obtain y s2 where l: "scheduled_loop (scheduled_listeners s) (nextId s) s1 = (y, s2)"
    by (cases "scheduled_loop (scheduled_listeners s) (nextId s) s1")
  from scheduled_loop_ok [OF ev assms w] l ef
  have y: "y = None"
    and e2: "effects s2 = effects s @ concat (map emits (scheduled_listeners s))"
    and w2: "waitUntilMap s2 (nextId s) = Some (concat (map tasks (scheduled_listeners s)))"
    by simp_all
  from d l y have "dispatchScheduled st cr now clock s = (waitUntil_accessor s2 (nextId s) clock, s2)"
    by simp
  with e2 w2 show ?thesis by (simp add: waitUntil_accessor_def)
qed

lemma dispatchScheduled_Returns_D:
  assumes "fst (dispatchScheduled st cr now clock s) = Returns vs"
  shows "\<forall>l \<in> set (scheduled_listeners s). list_all sched_ok l"
proof -
  from dispatchScheduled_unfold [of s st cr now clock] obtain s1 t c
    where ev: "events s1 (nextId s) = Some (ScheduledEventObj t c)"
      and d: "dispatchScheduled st cr now clock s =
       (case scheduled_loop (scheduled_listeners s) (nextId s) s1 of
          (Some err, s2) \<Rightarrow> (Throws err, s2)
        | (None, s2) \<Rightarrow> (waitUntil_accessor s2 (nextId s) clock, s2))"
    by blast
  obtain y s2 where l: "scheduled_loop (scheduled_listeners s) (nextId s) s1 = (y, s2)"
    by (cases "scheduled_loop (scheduled_listeners s) (nextId s) s1")
  have "y = None"
  proof (cases y)
    case None
    then show ?thesis .
  next
    case (Some err)
    with d l have "fst (dispatchScheduled st cr now clock s) = Throws err" by simp
    with assms show ?thesis by simp
  qed
  with l have "fst (scheduled_loop (scheduled_listeners s) (nextId s) s1) = None" by simp
  from scheduled_loop_None_D [OF ev this] show ?thesis .
qed

lemma fold_waitUntil:
  "waitUntilMap s e = Some qs \<Longrightarrow> waitUntilMap (fold (waitUntil e) ps s) e = Some (qs @ ps)"
  by (induction ps arbitrary: s qs) (simp_all add: waitUntil_def)

text \<open>
  Claim C5. The tasks registered on an event are kept in the order of registration, and
  the accessor (and likewise the end of \<^verbatim>\<open>dispatchScheduled\<close>) yields their results
  in that order whatever the times at which they settle. When a task rejects, the
  aggregate rejects with the reason of the rejection that \<^verbatim>\<open>Promise.all\<close> sees first:
  no rejection is seen earlier, and none that is seen at the same time stands earlier in
  the list. So among tasks that have all settled before the call it is the first rejected
  task of the list, and among tasks that settle after the call it is the one that rejects
  first.
\<close>

theorem background_tasks_keep_registration_order:
  assumes "waitUntilMap s e = Some []"
  shows "waitUntilMap (fold (waitUntil e) ps s) e = Some ps \<and>
    (\<forall>tvs. ps = map (\<lambda>(t, v). Fulfilled t v) tvs \<longrightarrow>
       waitUntil_accessor (fold (waitUntil e) ps s) e clock = Returns (map snd tvs)) \<and>
    (\<forall>t err. Rejected t err \<in> set ps \<longrightarrow>
       (\<exists>i t0 e0. i < length ps \<and> ps ! i = Rejected t0 e0 \<and>
          waitUntil_accessor (fold (waitUntil e) ps s) e clock = Throws e0 \<and>
          (\<forall>j t' e'. j < length ps \<and> ps ! j = Rejected t' e' \<longrightarrow>
             max clock t0 \<le> max clock t' \<and> (j < i \<longrightarrow> max clock t0 < max clock t')))) \<and>
    (\<forall>s' tvs. (\<forall>l \<in> set (scheduled_listeners s'). list_all sched_ok l) \<and>
       concat (map tasks (scheduled_listeners s')) = map (\<lambda>(t, v). Fulfilled t v) tvs \<longrightarrow>
       fst (dispatchScheduled st cr now clock s') = Returns (map snd tvs)) \<and>
    (\<forall>s' t err. (\<forall>l \<in> set (scheduled_listeners s'). list_all sched_ok l) \<and>
       Rejected t err \<in> set (concat (map tasks (scheduled_listeners s'))) \<longrightarrow>
       (\<exists>i t0 e0. i < length (concat (map tasks (scheduled_listeners s'))) \<and>
          concat (map tasks (scheduled_listeners s')) ! i = Rejected t0 e0 \<and>
          fst (dispatchScheduled st cr now clock s') = Throws e0 \<and>
          (\<forall>j t' e'. j < length (concat (map tasks (scheduled_listeners s'))) \<and>
             concat (map tasks (scheduled_listeners s')) ! j = Rejected t' e' \<longrightarrow>
             max clock t0 \<le> max clock t' \<and> (j < i \<longrightarrow> max clock t0 < max clock t'))))"
proof -
  have w: "waitUntilMap (fold (waitUntil e) ps s) e = Some ps"
    using fold_waitUntil [OF assms, of ps] by simp
  have a: "waitUntil_accessor (fold (waitUntil e) ps s) e clock = await (Promise_all clock ps)"
    using w by (simp add: waitUntil_accessor_def)
  have f: "waitUntil_accessor (fold (waitUntil e) ps s) e clock = Returns (map snd tvs)"
    if "ps = map (\<lambda>(t, v). Fulfilled t v) tvs" for tvs
  proof -
    from Promise_all_fulfilled [of clock tvs] obtain t
      where "Promise_all clock (map (\<lambda>(t, v). Fulfilled t v) tvs) = Fulfilled t (map snd tvs)" ..
    with a that show ?thesis by simp
  qed
  have r: "\<exists>i t0 e0. i < length ps \<and> ps ! i = Rejected t0 e0 \<and>
          waitUntil_accessor (fold (waitUntil e) ps s) e clock = Throws e0 \<and>
          (\<forall>j t' e'. j < length ps \<and> ps ! j = Rejected t' e' \<longrightarrow>
             max clock t0 \<le> max clock t' \<and> (j < i \<longrightarrow> max clock t0 < max clock t'))"
    if "Rejected t err \<in> set ps" for t err
  proof -
    from Promise_all_rejected [OF that, of clock] obtain i t0 e0
      where "i < length ps" "ps ! i = Rejected t0 e0"
        "Promise_all clock ps = Rejected (max clock t0) e0"
        "\<forall>j t' e'. j < length ps \<and> ps ! j = Rejected t' e' \<longrightarrow>
             max clock t0 \<le> max clock t' \<and> (j < i \<longrightarrow> max clock t0 < max clock t')"
      by blast
    with a show ?thesis by (intro exI [of _ i] exI [of _ t0] exI [of _ e0]) simp
  qed
  have df: "fst (dispatchScheduled st cr now clock s') = Returns (map snd tvs)"
    if "\<forall>l \<in> set (scheduled_listeners s'). list_all sched_ok l"
      and "concat (map tasks (scheduled_listeners s')) = map (\<lambda>(t, v). Fulfilled t v) tvs"
    for s' tvs
  proof -
    from Promise_all_fulfilled [of clock tvs] obtain t
      where "Promise_all clock (map (\<lambda>(t, v). Fulfilled t v) tvs) = Fulfilled t (map snd tvs)" ..
    with dispatchScheduled_ok [OF that(1), of st cr now clock] that(2) show ?thesis by simp
  qed
  have dr: "\<exists>i t0 e0. i < length (concat (map tasks (scheduled_listeners s'))) \<and>
          concat (map tasks (scheduled_listeners s')) ! i = Rejected t0 e0 \<and>
          fst (dispatchScheduled st cr now clock s') = Throws e0 \<and>
          (\<forall>j t' e'. j < length (concat (map tasks (scheduled_listeners s'))) \<and>
             concat (map tasks (scheduled_listeners s')) ! j = Rejected t' e' \<longrightarrow>
             max clock t0 \<le> max clock t' \<and> (j < i \<longrightarrow> max clock t0 < max clock t'))"
    if "\<forall>l \<in> set (scheduled_listeners s'). list_all sched_ok l"
      and "Rejected t err \<in> set (concat (map tasks (scheduled_listeners s')))"
    for s' t err
  proof -
    let ?T = "concat (map tasks (scheduled_listeners s'))"
    from Promise_all_rejected [OF that(2), of clock] obtain i t0 e0
      where i: "i < length ?T" "?T ! i = Rejected t0 e0"
        and p: "Promise_all clock ?T = Rejected (max clock t0) e0"
        and l: "\<forall>j t' e'. j < length ?T \<and> ?T ! j = Rejected t' e' \<longrightarrow>
             max clock t0 \<le> max clock t' \<and> (j < i \<longrightarrow> max clock t0 < max clock t')"
      by blast
    from dispatchScheduled_ok [OF that(1), of st cr now clock] p
    have "fst (dispatchScheduled st cr now clock s') = Throws e0" by simp
    with i l show ?thesis by (intro exI [of _ i] exI [of _ t0] exI [of _ e0]) simp
  qed
  from w f r df dr show ?thesis by (intro conjI allI impI) blast+
qed


text \<open>
  Two tasks that fulfil in the reverse order of their registration; three tasks of which
  the last registered rejects first, aggregated before any has settled and after all have
  settled; and a scheduled dispatch over two listeners.
\<close>

theorem background_tasks_keep_registration_order_witness:
  "waitUntilMap (snd (new_FetchEvent 0 init)) 1 = Some [] \<and>
   waitUntil_accessor
     (fold (waitUntil 1) [Fulfilled 9 (JNum 1), Fulfilled 2 (JNum 2)] (snd (new_FetchEvent 0 init))) 1 0 =
     Returns [JNum 1, JNum 2] \<and>
   waitUntil_accessor
     (fold (waitUntil 1) [Fulfilled 1 (JNum 1), Rejected 7 (Error ''late''), Rejected 4 (Error ''early'')]
        (snd (new_FetchEvent 0 init))) 1 0 =
     Throws (Error ''early'') \<and>
   waitUntil_accessor
     (fold (waitUntil 1) [Fulfilled 1 (JNum 1), Rejected 7 (Error ''late''), Rejected 4 (Error ''early'')]
        (snd (new_FetchEvent 0 init))) 1 10 =
     Throws (Error ''late'') \<and>
   fst (dispatchScheduled None None 0 0
          (registered ''scheduled'' [[WaitUntil (Fulfilled 9 (JNum 1))], [WaitUntil (Fulfilled 2 (JNum 2))]])) =
     Returns [JNum 1, JNum 2]"
proof -
  let ?s = "snd (new_FetchEvent 0 init)"
  let ?L = "[Fulfilled 1 (JNum 1), Rejected 7 (Error ''late''), Rejected 4 (Error ''early'')]"
  have h: "waitUntilMap ?s 1 = Some []"
    by (simp add: new_FetchEvent_def init_def)
  note t1 = background_tasks_keep_registration_order
    [OF h, of "[Fulfilled 9 (JNum 1), Fulfilled 2 (JNum 2)]" 0 None None 0]
  note t1a = t1 [THEN conjunct2, THEN conjunct1, rule_format, of "[(9, JNum 1), (2, JNum 2)]"]
  have a: "waitUntil_accessor (fold (waitUntil 1) [Fulfilled 9 (JNum 1), Fulfilled 2 (JNum 2)] ?s) 1 0 =
      Returns [JNum 1, JNum 2]"
    using t1a by simp
  note t1c = t1 [THEN conjunct2, THEN conjunct2, THEN conjunct2, THEN conjunct1, rule_format,
      of "registered ''scheduled'' [[WaitUntil (Fulfilled 9 (JNum 1))], [WaitUntil (Fulfilled 2 (JNum 2))]]"
      "[(9, JNum 1), (2, JNum 2)]"]
  have c: "fst (dispatchScheduled None None 0 0
          (registered ''scheduled'' [[WaitUntil (Fulfilled 9 (JNum 1))], [WaitUntil (Fulfilled 2 (JNum 2))]])) =
     Returns [JNum 1, JNum 2]"
    using t1c by (simp add: registered_def scheduled_listeners_def)
  have m: "Rejected 7 (Error ''late'') \<in> set ?L" by simp
  have three: "i = 0 \<or> i = 1 \<or> i = 2" if "i < length ?L" for i
    using that by (auto simp: less_Suc_eq)
  note t2 = background_tasks_keep_registration_order [OF h, of ?L 0 None None 0,
      THEN conjunct2, THEN conjunct2, THEN conjunct1, rule_format, OF m]
  then obtain i t0 e0 where i: "i < length ?L" and n: "?L ! i = Rejected t0 e0"
    and r: "waitUntil_accessor (fold (waitUntil 1) ?L ?s) 1 0 = Throws e0"
    and least: "\<forall>j t' e'. j < length ?L \<and> ?L ! j = Rejected t' e' \<longrightarrow>
             max 0 t0 \<le> max 0 t' \<and> (j < i \<longrightarrow> max 0 t0 < max 0 t')"
    by blast
  from least [rule_format, of 2 4 "Error ''early''"] have "t0 \<le> 4" by simp
  with three [OF i] n have "e0 = Error ''early''" by auto
  with r have b: "waitUntil_accessor (fold (waitUntil 1) ?L ?s) 1 0 = Throws (Error ''early'')"
    by simp
  note t3 = background_tasks_keep_registration_order [OF h, of ?L 10 None None 0,
      THEN conjunct2, THEN conjunct2, THEN conjunct1, rule_format, OF m]
  then obtain i' t0' e0' where i': "i' < length ?L" and n': "?L ! i' = Rejected t0' e0'"
    and r': "waitUntil_accessor (fold (waitUntil 1) ?L ?s) 1 10 = Throws e0'"
    and least': "\<forall>j t' e'. j < length ?L \<and> ?L ! j = Rejected t' e' \<longrightarrow>
             max 10 t0' \<le> max 10 t' \<and> (j < i' \<longrightarrow> max 10 t0' < max 10 t')"
    by blast
  from least' [rule_format, of 1 7 "Error ''late''"] n' three [OF i']
  have "e0' = Error ''late''" by auto
  with r' have d: "waitUntil_accessor (fold (waitUntil 1) ?L ?s) 1 10 = Throws (Error ''late'')"
    by simp
  from h a b d c show ?thesis by (intro conjI)
qed

lemma tasks_append: "tasks (xs @ ys) = tasks xs @ tasks ys"
  by (induction xs rule: tasks.induct) simp_all

lemma emits_append: "emits (xs @ ys) = emits xs @ emits ys"
  by (induction xs rule: emits.induct) simp_all

lemma sched_ok_ctx: "list_all sched_ok (map ctx_action cs)"
proof (induction cs)
  case Nil
  then show ?case by simp
next
  case (Cons c cs)
  then show ?case by (cases c) simp_all
qed

lemma await_Returns_D: "await p = Returns v \<Longrightarrow> \<exists>t. p = Fulfilled t v"
  by (cases p) simp_all

text \<open>
  Claim C6, amended. In a scheduled dispatch where no listener throws, every listener
  registered for \<^verbatim>\<open>scheduled\<close> is called, in the order of registration, before anything
  is awaited: the effects of all of them are there and all their tasks are on the
  event's list, in that order, when the list is aggregated. A task that rejects stops
  no listener, it only decides the aggregated result.
\<close>

theorem scheduled_listeners_all_run_before_aggregation:
  assumes "list_all (list_all sched_ok) (scheduled_listeners s)"
  shows "effects (snd (dispatchScheduled st cr now clock s)) =
           effects s @ concat (map emits (scheduled_listeners s)) \<and>
         waitUntilMap (snd (dispatchScheduled st cr now clock s)) (nextId s) =
           Some (concat (map tasks (scheduled_listeners s))) \<and>
         fst (dispatchScheduled st cr now clock s) =
           waitUntil_accessor (snd (dispatchScheduled st cr now clock s)) (nextId s) clock"
proof -
  from assms have "\<forall>l \<in> set (scheduled_listeners s). list_all sched_ok l"
    by (simp add: list_all_iff)
  from dispatchScheduled_ok [OF this, of st cr now clock] show ?thesis
    by (simp add: waitUntil_accessor_def)
qed

text \<open>
  The first listener registers a task that rejects; the second listener still runs, and
  the rejection is the result of the dispatch.
\<close>

theorem scheduled_listeners_all_run_before_aggregation_witness:
  "list_all (list_all sched_ok) (scheduled_listeners (registered ''scheduled''
       [[WaitUntil (Rejected 3 (Error ''late'')), Emit ''first''],
        [Emit ''second'', WaitUntil (Fulfilled 1 (JNum 2))]])) \<and>
   effects (snd (dispatchScheduled None None 0 0 (registered ''scheduled''
       [[WaitUntil (Rejected 3 (Error ''late'')), Emit ''first''],
        [Emit ''second'', WaitUntil (Fulfilled 1 (JNum 2))]]))) = [''first'', ''second''] \<and>
   fst (dispatchScheduled None None 0 0 (registered ''scheduled''
       [[WaitUntil (Rejected 3 (Error ''late'')), Emit ''first''],
        [Emit ''second'', WaitUntil (Fulfilled 1 (JNum 2))]])) = Throws (Error ''late'')"
proof -
  let ?s = "registered ''scheduled''
       [[WaitUntil (Rejected 3 (Error ''late'')), Emit ''first''],
        [Emit ''second'', WaitUntil (Fulfilled 1 (JNum 2))]]"
  have l: "scheduled_listeners ?s =
       [[WaitUntil (Rejected 3 (Error ''late'')), Emit ''first''],
        [Emit ''second'', WaitUntil (Fulfilled 1 (JNum 2))]]"
    by (simp add: registered_def scheduled_listeners_def)
  have h: "list_all (list_all sched_ok) (scheduled_listeners ?s)"
    by (simp add: registered_def scheduled_listeners_def)
  have e: "effects ?s = []" and n: "nextId ?s = 1"
    by (simp_all add: registered_def init_def)
  note t = scheduled_listeners_all_run_before_aggregation [OF h, of None None 0 0]
  have a: "effects (snd (dispatchScheduled None None 0 0 ?s)) = [''first'', ''second'']"
    using t unfolding l e by simp
  have b: "fst (dispatchScheduled None None 0 0 ?s) = Throws (Error ''late'')"
    using t unfolding l n by (simp add: waitUntil_accessor_def Promise_all_def)
  from h a b show ?thesis by (intro conjI)
qed

text \<open>
  Claim C6 as it is written fails: the loop of \<^verbatim>\<open>dispatchScheduled\<close> has no \<^verbatim>\<open>try\<close>, so
  a listener that throws ends the dispatch with its error and the listeners registered
  after it are not called.
\<close>

theorem scheduled_listener_that_throws_counterexample:
  "scheduled_listeners (registered ''scheduled'' [[Throw (Error ''boom'')], [Emit ''second'']]) =
     [[Throw (Error ''boom'')], [Emit ''second'']] \<and>
   fst (dispatchScheduled None None 0 0
          (registered ''scheduled'' [[Throw (Error ''boom'')], [Emit ''second'']])) =
     Throws (Error ''boom'') \<and>
   effects (snd (dispatchScheduled None None 0 0
          (registered ''scheduled'' [[Throw (Error ''boom'')], [Emit ''second'']]))) = []"
  by (simp add: registered_def init_def scheduled_listeners_def dispatchScheduled_def
      new_ScheduledEvent_def)


lemma perform_tasks_Some:
  "perform a e s = (x, s') \<Longrightarrow> waitUntilMap s e' = Some ps \<Longrightarrow>
     \<exists>ps'. waitUntilMap s' e' = Some (ps @ ps')"
  by (cases a) (auto simp: event_defs split: option.splits event_obj.splits)

lemma invoke_tasks_Some:
  "invoke l e s = (x, s') \<Longrightarrow> waitUntilMap s e' = Some ps \<Longrightarrow>
     \<exists>ps'. waitUntilMap s' e' = Some (ps @ ps')"
proof (induction l arbitrary: s ps)
  case Nil
  then show ?case by simp
next
  case (Cons a l)
  obtain y s1 where p: "perform a e s = (y, s1)" by (cases "perform a e s")
  from perform_tasks_Some [OF p Cons.prems(2)] obtain ps1
    where w: "waitUntilMap s1 e' = Some (ps @ ps1)" ..
  show ?case
  proof (cases y)
    case None
    with Cons.prems p have "invoke l e s1 = (x, s')" by simp
    from Cons.IH [OF this w] show ?thesis by auto
  next
    case (Some err)
    with Cons.prems p w show ?thesis by auto
  qed
qed

lemma scheduled_loop_tasks_Some:
  "scheduled_loop ls e s = (x, s') \<Longrightarrow> waitUntilMap s e' = Some ps \<Longrightarrow>
     \<exists>ps'. waitUntilMap s' e' = Some (ps @ ps')"
proof (induction ls arbitrary: s ps)
  case Nil
  then show ?case by simp
next
  case (Cons l ls)
  obtain y s1 where i: "invoke l e s = (y, s1)" by (cases "invoke l e s")
  from invoke_tasks_Some [OF i Cons.prems(2)] obtain ps1
    where w: "waitUntilMap s1 e' = Some (ps @ ps1)" ..
  show ?case
  proof (cases y)
    case None
    with Cons.prems i have "scheduled_loop ls e s1 = (x, s')" by simp
    from Cons.IH [OF this w] show ?thesis by auto
  next
    case (Some err)
    with Cons.prems i w show ?thesis by auto
  qed
qed

lemma perform_effects_ext:
  "perform a e s = (x, s') \<Longrightarrow> \<exists>es. effects s' = effects s @ es"
  by (cases a) (auto simp: event_defs split: option.splits event_obj.splits)

lemma invoke_effects_ext:
  "invoke l e s = (x, s') \<Longrightarrow> \<exists>es. effects s' = effects s @ es"
proof (induction l arbitrary: s)
  case Nil
  then show ?case by simp
next
  case (Cons a l)
  obtain y s1 where p: "perform a e s = (y, s1)" by (cases "perform a e s")
  from perform_effects_ext [OF p] obtain es1 where w: "effects s1 = effects s @ es1" ..
  show ?case
  proof (cases y)
    case None
    with Cons.prems p have "invoke l e s1 = (x, s')" by simp
    from Cons.IH [OF this] w show ?thesis by auto
  next
    case (Some err)
    with Cons.prems p w show ?thesis by auto
  qed
qed

lemma scheduled_loop_effects_ext:
  "scheduled_loop ls e s = (x, s') \<Longrightarrow> \<exists>es. effects s' = effects s @ es"
proof (induction ls arbitrary: s)
  case Nil
  then show ?case by simp
next
  case (Cons l ls)
  obtain y s1 where i: "invoke l e s = (y, s1)" by (cases "invoke l e s")
  from invoke_effects_ext [OF i] obtain es1 where w: "effects s1 = effects s @ es1" ..
  show ?case
  proof (cases y)
    case None
    with Cons.prems i have "scheduled_loop ls e s1 = (x, s')" by simp
    from Cons.IH [OF this] w show ?thesis by auto
  next
    case (Some err)
    with Cons.prems i w show ?thesis by auto
  qed
qed

lemma invoke_append:
  "invoke (xs @ ys) e s =
     (case invoke xs e s of (Some err, s1) \<Rightarrow> (Some err, s1) | (None, s1) \<Rightarrow> invoke ys e s1)"
  by (induction xs arbitrary: s) (auto split: prod.splits option.splits)

lemma scheduled_loop_append:
  "scheduled_loop (xs @ ys) e s =
     (case scheduled_loop xs e s of
        (Some err, s1) \<Rightarrow> (Some err, s1)
      | (None, s1) \<Rightarrow> scheduled_loop ys e s1)"
  by (induction xs arbitrary: s) (auto split: prod.splits option.splits)

lemma addModuleScheduledListener_appends:
  "addModuleScheduledListener m s =
     (None, s\<lparr>listeners := (listeners s)(''scheduled'' \<mapsto>
                 scheduled_listeners s @ [module_scheduled_adapter m])\<rparr>)"
  by (auto simp: addModuleScheduledListener_def addEventListener_def has_property_def
      Object_prototype_keys_def scheduled_listeners_def Let_def split: option.splits)

lemma adapter_turn_returns:
  assumes "events s e = Some (ScheduledEventObj t c)" and "waitUntilMap s e = Some qs"
    and "outcome m = Inr res"
  shows "fst (invoke (module_scheduled_adapter m) e s) = None"
    and "effects (snd (invoke (module_scheduled_adapter m) e s)) =
           effects s @ emits (map ctx_action (calls m))"
    and "waitUntilMap (snd (invoke (module_scheduled_adapter m) e s)) e =
           Some (qs @ tasks (map ctx_action (calls m)) @ [Promise_resolve res])"
proof -
  have ok: "list_all sched_ok (module_scheduled_adapter m)"
    using assms(3) sched_ok_ctx [of "calls m"] by (simp add: module_scheduled_adapter_def)
  from invoke_sched_ok [OF assms(1), of "module_scheduled_adapter m"] ok
  show "fst (invoke (module_scheduled_adapter m) e s) = None" by simp
  from invoke_sched_effects [OF assms(1) ok] assms(3)
  show "effects (snd (invoke (module_scheduled_adapter m) e s)) =
           effects s @ emits (map ctx_action (calls m))"
    by (simp add: module_scheduled_adapter_def emits_append)
  from invoke_sched_tasks [OF assms(1) ok assms(2)] assms(3)
  show "waitUntilMap (snd (invoke (module_scheduled_adapter m) e s)) e =
           Some (qs @ tasks (map ctx_action (calls m)) @ [Promise_resolve res])"
    by (simp add: module_scheduled_adapter_def tasks_append)
qed

lemma adapter_turn_throws:
  assumes "events s e = Some (ScheduledEventObj t c)" and "waitUntilMap s e = Some qs"
    and "outcome m = Inl err"
  shows "fst (invoke (module_scheduled_adapter m) e s) = Some err"
    and "effects (snd (invoke (module_scheduled_adapter m) e s)) =
           effects s @ emits (map ctx_action (calls m))"
    and "waitUntilMap (snd (invoke (module_scheduled_adapter m) e s)) e =
           Some (qs @ tasks (map ctx_action (calls m)))"
proof -
  let ?cs = "map ctx_action (calls m)"
  obtain y s1 where i: "invoke ?cs e s = (y, s1)" by (cases "invoke ?cs e s")
  from invoke_sched_ok [OF assms(1), of ?cs] sched_ok_ctx [of "calls m"] i
  have y: "y = None" by simp
  from invoke_sched_effects [OF assms(1) sched_ok_ctx, of "calls m"] i
  have ef: "effects s1 = effects s @ emits ?cs" by simp
  from invoke_sched_tasks [OF assms(1) sched_ok_ctx assms(2), of "calls m"] i
  have tk: "waitUntilMap s1 e = Some (qs @ tasks ?cs)" by simp
  have "invoke (module_scheduled_adapter m) e s = (Some err, s1)"
    using assms(3) i y by (simp add: module_scheduled_adapter_def invoke_append)
  with ef tk show "fst (invoke (module_scheduled_adapter m) e s) = Some err"
    and "effects (snd (invoke (module_scheduled_adapter m) e s)) = effects s @ emits ?cs"
    and "waitUntilMap (snd (invoke (module_scheduled_adapter m) e s)) e = Some (qs @ tasks ?cs)"
    by simp_all
qed

text \<open>The dispatch up to and including the turn of the handler.\<close>

lemma handler_turn:
  assumes "\<forall>l \<in> set pre. list_all sched_ok l"
    and "scheduled_listeners s = pre @ module_scheduled_adapter m # post"
  shows "\<exists>sA sB t c.
           events sA (nextId s) = Some (ScheduledEventObj t c) \<and>
           effects sA = effects s @ concat (map emits pre) \<and>
           waitUntilMap sA (nextId s) = Some (concat (map tasks pre)) \<and>
           sB = snd (invoke (module_scheduled_adapter m) (nextId s) sA) \<and>
           dispatchScheduled st cr now clock s =
             (case fst (invoke (module_scheduled_adapter m) (nextId s) sA) of
                Some err \<Rightarrow> (Throws err, sB)
              | None \<Rightarrow>
                  (case scheduled_loop post (nextId s) sB of
                     (Some err, s2) \<Rightarrow> (Throws err, s2)
                   | (None, s2) \<Rightarrow> (waitUntil_accessor s2 (nextId s) clock, s2)))"
proof -
  from dispatchScheduled_unfold [of s st cr now clock] obtain s1 t c
    where ev: "events s1 (nextId s) = Some (ScheduledEventObj t c)"
      and w: "waitUntilMap s1 (nextId s) = Some []"
      and ef: "effects s1 = effects s"
      and d: "dispatchScheduled st cr now clock s =
       (case scheduled_loop (scheduled_listeners s) (nextId s) s1 of
          (Some err, s2) \<Rightarrow> (Throws err, s2)
        | (None, s2) \<Rightarrow> (waitUntil_accessor s2 (nextId s) clock, s2))"
    by blast
  obtain y sA where l: "scheduled_loop pre (nextId s) s1 = (y, sA)"
    by (cases "scheduled_loop pre (nextId s) s1")
  from scheduled_loop_ok [OF ev assms(1) w] l ef
  have y: "y = None"
    and eA: "effects sA = effects s @ concat (map emits pre)"
    and wA: "waitUntilMap sA (nextId s) = Some (concat (map tasks pre))"
    by simp_all
  from scheduled_loop_frame [OF l] ev
  have evA: "events sA (nextId s) = Some (ScheduledEventObj t c)" by simp
  obtain z sB where i: "invoke (module_scheduled_adapter m) (nextId s) sA = (z, sB)"
    by (cases "invoke (module_scheduled_adapter m) (nextId s) sA")
  have "dispatchScheduled st cr now clock s =
             (case fst (invoke (module_scheduled_adapter m) (nextId s) sA) of
                Some err \<Rightarrow> (Throws err, sB)
              | None \<Rightarrow>
                  (case scheduled_loop post (nextId s) sB of
                     (Some err, s2) \<Rightarrow> (Throws err, s2)
                   | (None, s2) \<Rightarrow> (waitUntil_accessor s2 (nextId s) clock, s2)))"
    using d l y i by (cases z) (simp_all add: assms(2) scheduled_loop_append)
  with evA eA wA i show ?thesis by (intro exI [of _ sA] exI [of _ sB] exI [of _ t] exI [of _ c]) simp
qed


lemma fulfils_with_iff: "fulfils_with p x \<longleftrightarrow> (\<exists>t. p = Fulfilled t x)"
  by (cases p) (auto simp: fulfils_with_def)

lemma Promise_all_Returns_D:
  assumes "await (Promise_all clock ps) = Returns vs"
  shows "list_all2 fulfils_with ps vs"
proof -
  from await_Returns_D [OF assms] obtain t where "Promise_all clock ps = Fulfilled t vs" ..
  from Promise_all_Fulfilled_D [OF this] show ?thesis
    by (simp add: fulfils_with_iff [abs_def])
qed

text \<open>
  Claim C9, amended. \<^verbatim>\<open>addModuleScheduledListener\<close> appends one listener to the
  \<^verbatim>\<open>scheduled\<close> list. In every scheduled dispatch in which no listener registered
  before it throws, that listener calls the handler; when the handler returns, it
  registers \<^verbatim>\<open>Promise.resolve\<close> of the returned value right after the tasks the handler
  registered through its context, whatever those tasks and that value do later and
  whatever the listeners registered afterwards do; when the handler throws, its tasks are
  registered and the dispatch fails with its error. So a result array, when there is one,
  holds the results of the handler's tasks and then the handler's own value, in that
  order, between the results of the listeners before and after.
\<close>

theorem module_scheduled_handler_runs_then_registers_return_value:
  assumes "list_all (list_all sched_ok) (scheduled_listeners s)"
    and "scheduled_listeners s' =
           scheduled_listeners (snd (addModuleScheduledListener m s)) @ post"
  shows "fst (addModuleScheduledListener m s) = None \<and>
    scheduled_listeners (snd (addModuleScheduledListener m s)) =
      scheduled_listeners s @ [module_scheduled_adapter m] \<and>
    (case outcome m of
       Inl err \<Rightarrow>
         fst (dispatchScheduled st cr now clock s') = Throws err \<and>
         effects (snd (dispatchScheduled st cr now clock s')) =
           effects s' @ concat (map emits (scheduled_listeners s)) @
           emits (map ctx_action (calls m)) \<and>
         waitUntilMap (snd (dispatchScheduled st cr now clock s')) (nextId s') =
           Some (concat (map tasks (scheduled_listeners s)) @ tasks (map ctx_action (calls m)))
     | Inr res \<Rightarrow>
         (\<exists>es ps.
            effects (snd (dispatchScheduled st cr now clock s')) =
              effects s' @ concat (map emits (scheduled_listeners s)) @
              emits (map ctx_action (calls m)) @ es \<and>
            waitUntilMap (snd (dispatchScheduled st cr now clock s')) (nextId s') =
              Some (concat (map tasks (scheduled_listeners s)) @
                    tasks (map ctx_action (calls m)) @ [Promise_resolve res] @ ps) \<and>
            (list_all (list_all sched_ok) post \<longrightarrow>
               es = concat (map emits post) \<and> ps = concat (map tasks post) \<and>
               fst (dispatchScheduled st cr now clock s') =
                 await (Promise_all clock
                   (concat (map tasks (scheduled_listeners s)) @
                    tasks (map ctx_action (calls m)) @ [Promise_resolve res] @ ps)))) \<and>
         (\<forall>vs. fst (dispatchScheduled st cr now clock s') = Returns vs \<longrightarrow>
            (\<exists>a b v c. vs = a @ b @ [v] @ c \<and>
               list_all2 fulfils_with (concat (map tasks (scheduled_listeners s))) a \<and>
               list_all2 fulfils_with (tasks (map ctx_action (calls m))) b \<and>
               fulfils_with (Promise_resolve res) v \<and>
               list_all2 fulfils_with (concat (map tasks post)) c)))"
proof -
  let ?pre = "scheduled_listeners s"
  let ?ad = "module_scheduled_adapter m"
  let ?D = "dispatchScheduled st cr now clock s'"
  let ?P = "concat (map tasks ?pre)"
  let ?C = "tasks (map ctx_action (calls m))"
  let ?E = "concat (map emits ?pre)"
  let ?EC = "emits (map ctx_action (calls m))"
  let ?ev = "nextId s'"
  have reg1: "fst (addModuleScheduledListener m s) = None"
    by (simp add: addModuleScheduledListener_appends)
  have reg2: "scheduled_listeners (snd (addModuleScheduledListener m s)) = ?pre @ [?ad]"
    by (simp add: addModuleScheduledListener_appends scheduled_listeners_def)
  from assms(2) reg2 have L: "scheduled_listeners s' = ?pre @ ?ad # post" by simp
  from assms(1) have ok: "\<forall>l \<in> set ?pre. list_all sched_ok l" by (simp add: list_all_iff)
  from handler_turn [OF ok L, of st cr now clock] obtain sA sB t c
    where evA: "events sA ?ev = Some (ScheduledEventObj t c)"
      and eA: "effects sA = effects s' @ ?E"
      and wA: "waitUntilMap sA ?ev = Some ?P"
      and sB: "sB = snd (invoke ?ad ?ev sA)"
      and d: "?D = (case fst (invoke ?ad ?ev sA) of
                Some err \<Rightarrow> (Throws err, sB)
              | None \<Rightarrow>
                  (case scheduled_loop post ?ev sB of
                     (Some err, s2) \<Rightarrow> (Throws err, s2)
                   | (None, s2) \<Rightarrow> (waitUntil_accessor s2 ?ev clock, s2)))"
    by blast
  have third: "(case outcome m of
       Inl err \<Rightarrow>
         fst ?D = Throws err \<and> effects (snd ?D) = effects s' @ ?E @ ?EC \<and>
         waitUntilMap (snd ?D) ?ev = Some (?P @ ?C)
     | Inr res \<Rightarrow>
         (\<exists>es ps.
            effects (snd ?D) = effects s' @ ?E @ ?EC @ es \<and>
            waitUntilMap (snd ?D) ?ev = Some (?P @ ?C @ [Promise_resolve res] @ ps) \<and>
            (list_all (list_all sched_ok) post \<longrightarrow>
               es = concat (map emits post) \<and> ps = concat (map tasks post) \<and>
               fst ?D = await (Promise_all clock (?P @ ?C @ [Promise_resolve res] @ ps)))) \<and>
         (\<forall>vs. fst ?D = Returns vs \<longrightarrow>
            (\<exists>a b v c. vs = a @ b @ [v] @ c \<and>
               list_all2 fulfils_with ?P a \<and> list_all2 fulfils_with ?C b \<and>
               fulfils_with (Promise_resolve res) v \<and>
               list_all2 fulfils_with (concat (map tasks post)) c)))"
  proof (cases "outcome m")
    case (Inl err)
    note t = adapter_turn_throws [OF evA wA Inl]
    from d t(1) have "?D = (Throws err, sB)" by simp
    with t(2,3) sB eA Inl show ?thesis by simp
  next
    case (Inr res)
    note t = adapter_turn_returns [OF evA wA Inr]
    from invoke_frame [of ?ad ?ev sA "fst (invoke ?ad ?ev sA)" sB] sB evA
    have evB: "events sB ?ev = Some (ScheduledEventObj t c)" by simp
    from t(2) sB eA have eB: "effects sB = effects s' @ ?E @ ?EC" by simp
    from t(3) sB have wB: "waitUntilMap sB ?ev = Some (?P @ ?C @ [Promise_resolve res])" by simp
    obtain y s2 where l: "scheduled_loop post ?ev sB = (y, s2)"
      by (cases "scheduled_loop post ?ev sB")
    from d t(1) l have snd: "snd ?D = s2" by (cases y) simp_all
    from scheduled_loop_effects_ext [OF l] eB obtain es
      where e2: "effects s2 = effects s' @ ?E @ ?EC @ es" by auto
    from scheduled_loop_tasks_Some [OF l wB] obtain ps
      where w2: "waitUntilMap s2 ?ev = Some (?P @ ?C @ [Promise_resolve res] @ ps)" by auto
    have exact: "es = concat (map emits post) \<and> ps = concat (map tasks post) \<and>
               fst ?D = await (Promise_all clock (?P @ ?C @ [Promise_resolve res] @ ps))"
      if "list_all (list_all sched_ok) post"
    proof -
      from that have okp: "\<forall>l \<in> set post. list_all sched_ok l" by (simp add: list_all_iff)
      from scheduled_loop_ok [OF evB okp wB] l eB
      have y: "y = None"
        and e2': "effects s2 = (effects s' @ ?E @ ?EC) @ concat (map emits post)"
        and w2': "waitUntilMap s2 ?ev = Some ((?P @ ?C @ [Promise_resolve res]) @ concat (map tasks post))"
        by simp_all
      from e2 e2' have 1: "es = concat (map emits post)" by simp
      from w2 w2' have 2: "ps = concat (map tasks post)" by simp
      from d t(1) l y have "fst ?D = waitUntil_accessor s2 ?ev clock" by simp
      with w2 have 3: "fst ?D = await (Promise_all clock (?P @ ?C @ [Promise_resolve res] @ ps))"
        by (simp add: waitUntil_accessor_def)
      from 1 2 3 show ?thesis by simp
    qed
    have arr: "\<exists>a b v c. vs = a @ b @ [v] @ c \<and>
               list_all2 fulfils_with ?P a \<and> list_all2 fulfils_with ?C b \<and>
               fulfils_with (Promise_resolve res) v \<and>
               list_all2 fulfils_with (concat (map tasks post)) c"
      if "fst ?D = Returns vs" for vs
    proof -
      from dispatchScheduled_Returns_D [OF that] L
      have "list_all (list_all sched_ok) post" by (auto simp: list_all_iff)
      from exact [OF this] that
      have "await (Promise_all clock (?P @ ?C @ [Promise_resolve res] @ concat (map tasks post))) =
          Returns vs" by simp
      from Promise_all_Returns_D [OF this]
      have "list_all2 fulfils_with (?P @ ?C @ [Promise_resolve res] @ concat (map tasks post)) vs" .
      then obtain a r1 where 1: "vs = a @ r1" "list_all2 fulfils_with ?P a"
        "list_all2 fulfils_with (?C @ [Promise_resolve res] @ concat (map tasks post)) r1"
        by (auto simp: list_all2_append1)
      from 1(3) obtain b r2 where 2: "r1 = b @ r2" "list_all2 fulfils_with ?C b"
        "list_all2 fulfils_with ([Promise_resolve res] @ concat (map tasks post)) r2"
        by (auto simp: list_all2_append1)
      from 2(3) obtain v c where 3: "r2 = [v] @ c" "fulfils_with (Promise_resolve res) v"
        "list_all2 fulfils_with (concat (map tasks post)) c"
        by (auto simp: list_all2_Cons1)
      from 1(1,2) 2(1,2) 3 show ?thesis by blast
    qed
    have "\<exists>es ps.
            effects (snd ?D) = effects s' @ ?E @ ?EC @ es \<and>
            waitUntilMap (snd ?D) ?ev = Some (?P @ ?C @ [Promise_resolve res] @ ps) \<and>
            (list_all (list_all sched_ok) post \<longrightarrow>
               es = concat (map emits post) \<and> ps = concat (map tasks post) \<and>
               fst ?D = await (Promise_all clock (?P @ ?C @ [Promise_resolve res] @ ps)))"
      using snd e2 w2 exact by (intro exI [of _ es] exI [of _ ps]) simp
    with arr Inr show ?thesis by simp
  qed
  from reg1 reg2 third show ?thesis by (intro conjI)
qed

text \<open>A module with the handler above as its only listener: the dispatch yields 1, then 2.\<close>

theorem module_scheduled_handler_runs_then_registers_return_value_witness:
  "list_all (list_all sched_ok) (scheduled_listeners init) \<and>
   scheduled_listeners (snd (addModuleScheduledListener handler9 init)) =
     [module_scheduled_adapter handler9] \<and>
   outcome handler9 = Inr (Plain (JNum 2)) \<and>
   effects (snd (dispatchScheduled None None 0 0 (snd (addModuleScheduledListener handler9 init)))) =
     [''ran''] \<and>
   waitUntilMap (snd (dispatchScheduled None None 0 0 (snd (addModuleScheduledListener handler9 init)))) 1 =
     Some [Fulfilled 5 (JNum 1), Fulfilled 0 (JNum 2)] \<and>
   fst (dispatchScheduled None None 0 0 (snd (addModuleScheduledListener handler9 init))) =
     Returns [JNum 1, JNum 2]"
proof -
  let ?s' = "snd (addModuleScheduledListener handler9 init)"
  let ?D = "dispatchScheduled None None 0 0 ?s'"
  have h1: "list_all (list_all sched_ok) (scheduled_listeners init)"
    by (simp add: init_def scheduled_listeners_def)
  have h2: "scheduled_listeners ?s' = scheduled_listeners ?s' @ []" by simp
  have pre: "scheduled_listeners init = []" by (simp add: init_def scheduled_listeners_def)
  have o: "outcome handler9 = Inr (Plain (JNum 2))" by (simp add: handler9_def)
  have n: "nextId ?s' = 1" and e: "effects ?s' = []"
    by (simp_all add: addModuleScheduledListener_appends init_def)
  note t = module_scheduled_handler_runs_then_registers_return_value
    [OF h1 h2, of None None 0 0]
  from t have r: "scheduled_listeners ?s' = [module_scheduled_adapter handler9]"
    unfolding pre by simp
  from t [THEN conjunct2, THEN conjunct2] obtain es ps
    where ef: "effects (snd ?D) = effects ?s' @ concat (map emits (scheduled_listeners init)) @
              emits (map ctx_action (calls handler9)) @ es"
      and w: "waitUntilMap (snd ?D) (nextId ?s') =
              Some (concat (map tasks (scheduled_listeners init)) @
                    tasks (map ctx_action (calls handler9)) @ [Promise_resolve (Plain (JNum 2))] @ ps)"
      and x: "list_all (list_all sched_ok) [] \<longrightarrow>
               es = concat (map emits []) \<and> ps = concat (map tasks []) \<and>
               fst ?D = await (Promise_all 0
                   (concat (map tasks (scheduled_listeners init)) @
                    tasks (map ctx_action (calls handler9)) @ [Promise_resolve (Plain (JNum 2))] @ ps))"
    unfolding o by auto
  from x have es: "es = []" and ps: "ps = []" by simp_all
  from ef have a: "effects (snd ?D) = [''ran'']"
    unfolding e pre es by (simp add: handler9_def)
  from w have b: "waitUntilMap (snd ?D) 1 = Some [Fulfilled 5 (JNum 1), Fulfilled 0 (JNum 2)]"
    unfolding n pre ps by (simp add: handler9_def)
  from x have c: "fst ?D = Returns [JNum 1, JNum 2]"
    unfolding pre ps by (simp add: handler9_def Promise_all_def)
  from h1 r o a b c show ?thesis by (intro conjI)
qed

text \<open>
  Claim C9 as it is written fails: when a listener registered before the handler throws,
  the dispatch ends there, the handler is not called and nothing of it is registered.
\<close>

theorem module_scheduled_handler_not_reached_counterexample:
  "scheduled_listeners
     (snd (addModuleScheduledListener handler9 (registered ''scheduled'' [[Throw (Error ''boom'')]]))) =
     [[Throw (Error ''boom'')], module_scheduled_adapter handler9] \<and>
   emits (module_scheduled_adapter handler9) = [''ran''] \<and>
   fst (dispatchScheduled None None 0 0
     (snd (addModuleScheduledListener handler9 (registered ''scheduled'' [[Throw (Error ''boom'')]])))) =
     Throws (Error ''boom'') \<and>
   effects (snd (dispatchScheduled None None 0 0
     (snd (addModuleScheduledListener handler9 (registered ''scheduled'' [[Throw (Error ''boom'')]]))))) =
     [] \<and>
   waitUntilMap (snd (dispatchScheduled None None 0 0
     (snd (addModuleScheduledListener handler9 (registered ''scheduled'' [[Throw (Error ''boom'')]]))))) 1 =
     Some []"
  by (simp add: addModuleScheduledListener_appends registered_def init_def scheduled_listeners_def
      dispatchScheduled_def new_ScheduledEvent_def module_scheduled_adapter_def handler9_def)

section \<open>Fetch dispatch\<close>


lemma dispatchFetch_event_Some:
  assumes "dispatchFetch_event rq s = Some (c, ev, s2)"
  shows "\<exists>q. requests s rq = Some q \<and> c = nextId s \<and> ev = Suc (nextId s) \<and>
           s2 = s\<lparr>nextId := Suc (Suc (nextId s)),
                   requests := (requests s)(nextId s \<mapsto> q),
                   events := (events s)(Suc (nextId s) \<mapsto> FetchEventObj (nextId s)),
                   waitUntilMap := (waitUntilMap s)(Suc (nextId s) \<mapsto> [])\<rparr>"
  using assms
  by (auto simp: dispatchFetch_event_def Request_clone_def new_FetchEvent_def
      split: option.splits)

lemma dispatchFetch_event_start:
  assumes "dispatchFetch_event rq s = Some (c, ev, s2)"
  shows "events s2 ev = Some (FetchEventObj c)"
    and "waitUntilMap s2 ev = Some []"
    and "requests s2 c = requests s rq"
    and "requests s rq \<noteq> None"
    and "c \<noteq> ev"
    and "fetch_listeners s2 = fetch_listeners s"
    and "effects s2 = effects s"
    and "warnings s2 = warnings s"
    and "fetched s2 = fetched s"
    and "responseWaitUntil s2 = responseWaitUntil s"
    and "passThroughMap s2 = passThroughMap s"
    and "responseMap s2 = responseMap s"
    and "ev = Suc (nextId s)"
    and "c = nextId s"
    and "nextId s2 = Suc (Suc (nextId s))"
  using dispatchFetch_event_Some [OF assms]
  by (auto simp: fetch_listeners_def)

lemma dispatchFetch_event_fresh:
  assumes "dispatchFetch_event rq s = Some (c, ev, s2)" and "wf s"
  shows "responseMap s2 ev = None"
    and "passThroughMap s2 ev = None"
    and "c \<noteq> rq"
    and "requests s2 rq = requests s rq"
    and "wf s2"
  using dispatchFetch_event_Some [OF assms(1)] assms(2)
  by (auto simp: wf_def)

lemma dispatchFetch_event_exists:
  "requests s rq = Some q \<Longrightarrow> \<exists>s2. dispatchFetch_event rq s = Some (nextId s, Suc (nextId s), s2)"
  by (simp add: dispatchFetch_event_def Request_clone_def new_FetchEvent_def)

lemma on_failure_frame:
  "on_failure err e s = (x, s') \<Longrightarrow>
     nextId s' = nextId s \<and> events s' = events s \<and> listeners s' = listeners s \<and>
     fetched s' = fetched s \<and> effects s' = effects s \<and> requests s' = requests s \<and>
     responseMap s' = responseMap s \<and> passThroughMap s' = passThroughMap s \<and>
     waitUntilMap s' = waitUntilMap s \<and> responseWaitUntil s' = responseWaitUntil s"
  by (auto simp: on_failure_def split: if_splits sum.splits)

lemma fetch_loop_frame:
  "fetch_loop ls e s = (x, s') \<Longrightarrow>
     nextId s' = nextId s \<and> events s' = events s \<and> listeners s' = listeners s \<and>
     fetched s' = fetched s"
proof (induction ls arbitrary: s)
  case Nil
  then show ?case by simp
next
  case (Cons l ls)
  obtain y s1 where i: "invoke l e s = (y, s1)" by (cases "invoke l e s")
  note f = invoke_frame [OF i]
  from Cons.prems i f Cons.IH [of s1] show ?case
    by (auto split: option.splits promise.splits dest!: on_failure_frame)
qed




lemma fetch_loop_requests:
  "fetch_loop ls e s = (x, s') \<Longrightarrow> events s e = Some (FetchEventObj c) \<Longrightarrow> r \<noteq> c \<Longrightarrow>
     requests s' r = requests s r"
proof (induction ls arbitrary: s)
  case Nil
  then show ?case by simp
next
  case (Cons l ls)
  obtain y s1 where i: "invoke l e s = (y, s1)" by (cases "invoke l e s")
  from invoke_fetch_requests [OF Cons.prems(2,3), of l] i
  have r: "requests s1 r = requests s r" by simp
  from invoke_frame [OF i] Cons.prems(2) have ev: "events s1 e = Some (FetchEventObj c)" by simp
  from Cons.prems i r Cons.IH [OF _ ev] show ?case
    by (auto split: option.splits promise.splits dest!: on_failure_frame)
qed




lemma fetch_loop_tasks_Some:
  "fetch_loop ls e s = (x, s') \<Longrightarrow> waitUntilMap s e' = Some ps \<Longrightarrow>
     \<exists>ps'. waitUntilMap s' e' = Some (ps @ ps')"
proof (induction ls arbitrary: s ps)
  case Nil
  then show ?case by simp
next
  case (Cons l ls)
  obtain y s1 where i: "invoke l e s = (y, s1)" by (cases "invoke l e s")
  from invoke_tasks_Some [OF i Cons.prems(2)] obtain ps1
    where w: "waitUntilMap s1 e' = Some (ps @ ps1)" ..
  have r: "\<exists>ps'. waitUntilMap s' e' = Some (ps @ ps')" if "fetch_loop ls e s1 = (x, s')"
    using Cons.IH [OF that w] by auto
  from Cons.prems i w r show ?case
    by (auto split: option.splits promise.splits dest!: on_failure_frame)
qed

lemma fetch_loop_Responded:
  "fetch_loop ls e s = (Responded r, s') \<Longrightarrow> responseWaitUntil s' r = Some e"
proof (induction ls arbitrary: s)
  case Nil
  then show ?case by simp
next
  case (Cons l ls)
  obtain y s1 where i: "invoke l e s = (y, s1)" by (cases "invoke l e s")
  from Cons.prems i Cons.IH [of s1] show ?case
    by (auto simp: on_failure_def split: option.splits promise.splits if_splits sum.splits)
qed


lemma run_all_append: "run_all (xs @ ys) e s = run_all ys e (run_all xs e s)"
  by (induction xs arbitrary: s) simp_all

lemma run_all_frame:
  "nextId (run_all ls e s) = nextId s \<and> events (run_all ls e s) = events s \<and>
   listeners (run_all ls e s) = listeners s \<and> warnings (run_all ls e s) = warnings s \<and>
   fetched (run_all ls e s) = fetched s \<and>
   responseWaitUntil (run_all ls e s) = responseWaitUntil s"
proof (induction ls arbitrary: s)
  case Nil
  then show ?case by simp
next
  case (Cons l ls)
  obtain y s1 where i: "invoke l e s = (y, s1)" by (cases "invoke l e s")
  from invoke_frame [OF i] Cons [of s1] i show ?case by simp
qed

lemma run_all_effects:
  "events s e = Some (FetchEventObj c) \<Longrightarrow>
     effects (run_all ls e s) = effects s @ concat (map (\<lambda>l. emits (executed l)) ls)"
proof (induction ls arbitrary: s)
  case Nil
  then show ?case by simp
next
  case (Cons l ls)
  obtain y s1 where i: "invoke l e s = (y, s1)" by (cases "invoke l e s")
  from invoke_frame [OF i] Cons.prems have ev: "events s1 e = Some (FetchEventObj c)" by simp
  from invoke_fetch_effects [OF Cons.prems, of l] i Cons.IH [OF ev] show ?case by simp
qed

lemma run_all_flag:
  "events s e = Some (FetchEventObj c) \<Longrightarrow>
     passThroughMap (run_all ls e s) e =
       (if list_ex (\<lambda>l. grants (executed l)) ls then Some True else passThroughMap s e)"
proof (induction ls arbitrary: s)
  case Nil
  then show ?case by simp
next
  case (Cons l ls)
  obtain y s1 where i: "invoke l e s = (y, s1)" by (cases "invoke l e s")
  from invoke_frame [OF i] Cons.prems have ev: "events s1 e = Some (FetchEventObj c)" by simp
  from invoke_fetch_flag [OF Cons.prems, of l] i Cons.IH [OF ev] show ?case by simp
qed

lemma run_all_tasks:
  "events s e = Some (FetchEventObj c) \<Longrightarrow> waitUntilMap s e = Some ps \<Longrightarrow>
     waitUntilMap (run_all ls e s) e = Some (ps @ concat (map (\<lambda>l. tasks (executed l)) ls))"
proof (induction ls arbitrary: s ps)
  case Nil
  then show ?case by simp
next
  case (Cons l ls)
  obtain y s1 where i: "invoke l e s = (y, s1)" by (cases "invoke l e s")
  from invoke_frame [OF i] Cons.prems have ev: "events s1 e = Some (FetchEventObj c)" by simp
  from invoke_fetch_tasks [OF Cons.prems, of l] i
  have w: "waitUntilMap s1 e = Some (ps @ tasks (executed l))" by simp
  from Cons.IH [OF ev w] i show ?case by simp
qed

lemma passes_turn:
  assumes "events s e = Some (FetchEventObj c)" and "slot_quiet s e" and "passes l"
  shows "fetch_loop (l # rest) e s = fetch_loop rest e (snd (invoke l e s))"
    and "slot_quiet (snd (invoke l e s)) e"
proof -
  obtain y s1 where i: "invoke l e s = (y, s1)" by (cases "invoke l e s")
  from assms(3) have t: "thrown l = None" by (simp add: passes_def)
  from invoke_fetch_thrown [OF assms(1), of l] i t have y: "y = None" by simp
  from invoke_fetch_response [OF assms(1), of l] i thrown_None_executed [OF t]
  have r: "responseMap s1 e =
      (case last_response l of None \<Rightarrow> responseMap s e | Some p \<Rightarrow> Some p)" by simp
  from r assms(2,3) have q: "slot_quiet s1 e"
    by (auto simp: slot_quiet_def passes_def split: option.splits promise.splits)
  from q i show "slot_quiet (snd (invoke l e s)) e" by simp
  from q i y show "fetch_loop (l # rest) e s = fetch_loop rest e (snd (invoke l e s))"
    by (auto simp: slot_quiet_def split: option.splits promise.splits)
qed

lemma passes_prefix:
  assumes "events s e = Some (FetchEventObj c)" and "slot_quiet s e" and "list_all passes pre"
  shows "fetch_loop (pre @ rest) e s = fetch_loop rest e (run_all pre e s) \<and>
         slot_quiet (run_all pre e s) e"
  using assms
proof (induction pre arbitrary: s)
  case Nil
  then show ?case by simp
next
  case (Cons l pre)
  obtain y s1 where i: "invoke l e s = (y, s1)" by (cases "invoke l e s")
  from Cons.prems(3) have p: "passes l" and ps: "list_all passes pre" by simp_all
  from invoke_frame [OF i] Cons.prems(1) have ev: "events s1 e = Some (FetchEventObj c)" by simp
  from passes_turn(1) [OF Cons.prems(1,2) p, of "pre @ rest"] i
  have 1: "fetch_loop (l # pre @ rest) e s = fetch_loop (pre @ rest) e s1" by simp
  from passes_turn(2) [OF Cons.prems(1,2) p] i
  have 2: "slot_quiet s1 e" by simp
  from Cons.IH [OF ev 2 ps] 1 i show ?case by simp
qed

lemma failure_turn:
  assumes "events s e = Some (FetchEventObj c)" and "failure l = Some err"
  shows "fetch_loop (l # rest) e s = on_failure err e (snd (invoke l e s))"
proof -
  obtain y s1 where i: "invoke l e s = (y, s1)" by (cases "invoke l e s")
  from invoke_fetch_thrown [OF assms(1), of l] i have y: "y = thrown l" by simp
  show ?thesis
  proof (cases "thrown l")
    case (Some err')
    with assms(2) have "err' = err" by (simp add: failure_def)
    with Some y i show ?thesis by simp
  next
    case None
    with assms(2) obtain t where lr: "last_response l = Some (Rejected t err)"
      by (auto simp: failure_def split: option.splits promise.splits)
    from invoke_fetch_response [OF assms(1), of l] i thrown_None_executed [OF None] lr
    have "responseMap s1 e = Some (Rejected t err)" by simp
    with None y i show ?thesis by simp
  qed
qed

lemma responded_turn:
  assumes "events s e = Some (FetchEventObj c)" and "thrown l = None"
    and "last_response l = Some (Fulfilled t (Some r))"
  shows "fetch_loop (l # rest) e s =
           (Responded r,
            (snd (invoke l e s))\<lparr>responseWaitUntil :=
               (responseWaitUntil (snd (invoke l e s)))(r \<mapsto> e)\<rparr>)"
proof -
  obtain y s1 where i: "invoke l e s = (y, s1)" by (cases "invoke l e s")
  from invoke_fetch_thrown [OF assms(1), of l] i assms(2) have y: "y = None" by simp
  from invoke_fetch_response [OF assms(1), of l] i thrown_None_executed [OF assms(2)] assms(3)
  have "responseMap s1 e = Some (Fulfilled t (Some r))" by simp
  with y i show ?thesis by simp
qed

lemma dispatchFetch_unfold:
  assumes "dispatchFetch_event rq s = Some (c, ev, s2)"
    and "fetch_loop (fetch_listeners s) ev s2 = (x, s3)"
  shows "dispatchFetch_listeners rq s = Some (ev, x, s3)"
    and "dispatchFetch rq up tr s =
           (case x of
              Responded r \<Rightarrow> (Returns r, s3)
            | Failed err \<Rightarrow> (Throws err, s3)
            | Fallback \<Rightarrow> fallback rq up tr ev s3
            | Hung \<Rightarrow> (NeverReturns, s3))"
  using assms dispatchFetch_event_start(6) [OF assms(1)]
  by (simp_all add: dispatchFetch_def dispatchFetch_listeners_def split: loop_exit.splits)

lemma fallback_frame:
  "fallback rq up tr ev s = (x, s') \<Longrightarrow>
     effects s' = effects s \<and> warnings s' = warnings s \<and> nextId s' = nextId s \<and>
     events s' = events s \<and> listeners s' = listeners s \<and> responseMap s' = responseMap s \<and>
     passThroughMap s' = passThroughMap s \<and> waitUntilMap s' = waitUntilMap s"
  by (auto simp: fallback_def Let_def split: option.splits promise.splits)

lemma executed_idle:
  "list_all (\<lambda>l. thrown l = None) ls \<Longrightarrow> map (\<lambda>l. emits (executed l)) ls = map emits ls"
  by (induction ls) (simp_all add: thrown_None_executed)

text \<open>
  Claim C1, amended. When no listener up to and including listener k throws, listener k is
  the first whose turn sets a response, and that response resolves to a response object
  when awaited, \<^verbatim>\<open>dispatchFetch\<close> returns exactly that object, with the accessor of this
  dispatch's event attached, and no listener after k is called: the final state is the
  one reached by the listeners up to k, and the effects are theirs alone.
\<close>

theorem first_response_is_returned:
  assumes "wf s"
    and "dispatchFetch_event rq s = Some (c, ev, s2)"
    and "fetch_listeners s = pre @ l # post"
    and "list_all (\<lambda>l'. thrown l' = None \<and> last_response l' = None) pre"
    and "thrown l = None"
    and "last_response l = Some (Fulfilled t (Some r))"
  shows "dispatchFetch rq up tr s =
           (Returns r,
            (run_all (pre @ [l]) ev s2)\<lparr>responseWaitUntil := (responseWaitUntil s)(r \<mapsto> ev)\<rparr>) \<and>
         effects (snd (dispatchFetch rq up tr s)) = effects s @ concat (map emits pre) @ emits l \<and>
         fetched (snd (dispatchFetch rq up tr s)) = fetched s"
proof -
  note st = dispatchFetch_event_start [OF assms(2)]
  note fr = dispatchFetch_event_fresh [OF assms(2,1)]
  from fr(1) have q: "slot_quiet s2 ev" by (simp add: slot_quiet_def)
  from assms(4) have p: "list_all passes pre"
    by (simp add: list_all_iff passes_def)
  from assms(4,5) have th: "list_all (\<lambda>l. thrown l = None) (pre @ [l])"
    by (simp add: list_all_iff)
  let ?s = "run_all pre ev s2"
  let ?s3 = "run_all (pre @ [l]) ev s2"
  from passes_prefix [OF st(1) q p, of "l # post"]
  have 1: "fetch_loop (pre @ l # post) ev s2 = fetch_loop (l # post) ev ?s" by simp
  from run_all_frame [of pre ev s2] st(1) have ev: "events ?s ev = Some (FetchEventObj c)" by simp
  have s3: "snd (invoke l ev ?s) = ?s3" by (simp add: run_all_append)
  from run_all_frame [of "pre @ [l]" ev s2] st
  have rw: "responseWaitUntil ?s3 = responseWaitUntil s" and fe: "fetched ?s3 = fetched s"
    by simp_all
  from responded_turn [OF ev assms(5,6), of post] 1 s3 rw
  have 2: "fetch_loop (fetch_listeners s) ev s2 =
      (Responded r, ?s3\<lparr>responseWaitUntil := (responseWaitUntil s)(r \<mapsto> ev)\<rparr>)"
    by (simp add: assms(3))
  from dispatchFetch_unfold(2) [OF assms(2) 2, of up tr]
  have d: "dispatchFetch rq up tr s =
      (Returns r, ?s3\<lparr>responseWaitUntil := (responseWaitUntil s)(r \<mapsto> ev)\<rparr>)" by simp
  have "effects ?s3 = effects s @ concat (map (\<lambda>l. emits (executed l)) (pre @ [l]))"
    using run_all_effects [OF st(1), of "pre @ [l]"] st(7) by simp
  also have "map (\<lambda>l. emits (executed l)) (pre @ [l]) = map emits (pre @ [l])"
    by (rule executed_idle [OF th])
  finally have e: "effects ?s3 = effects s @ concat (map emits pre) @ emits l" by simp
  from d e fe show ?thesis by simp
qed

text \<open>Three listeners: the second responds, the third is never called.\<close>

theorem first_response_is_returned_witness:
  "wf (registered ''fetch'' [[Emit ''a'', WaitUntil (Fulfilled 3 (JNum 1))],
        [Emit ''b'', RespondWith (Plain (Some 7))], [Emit ''c'']]) \<and>
   fst (dispatchFetch 0 None upstream_ok
     (registered ''fetch'' [[Emit ''a'', WaitUntil (Fulfilled 3 (JNum 1))],
        [Emit ''b'', RespondWith (Plain (Some 7))], [Emit ''c'']])) = Returns 7 \<and>
   effects (snd (dispatchFetch 0 None upstream_ok
     (registered ''fetch'' [[Emit ''a'', WaitUntil (Fulfilled 3 (JNum 1))],
        [Emit ''b'', RespondWith (Plain (Some 7))], [Emit ''c'']]))) = [''a'', ''b'']"
proof -
  let ?pre = "[[Emit ''a'', WaitUntil (Fulfilled 3 (JNum 1))]]"
  let ?l = "[Emit ''b'', RespondWith (Plain (Some 7))]"
  let ?post = "[[Emit ''c'']]"
  let ?s = "registered ''fetch'' [[Emit ''a'', WaitUntil (Fulfilled 3 (JNum 1))],
        [Emit ''b'', RespondWith (Plain (Some 7))], [Emit ''c'']]"
  have w: "wf ?s" by (simp add: wf_def registered_def init_def)
  have "requests ?s 0 = Some request0" by (simp add: registered_def init_def)
  from dispatchFetch_event_exists [OF this] obtain s2
    where e: "dispatchFetch_event 0 ?s = Some (nextId ?s, Suc (nextId ?s), s2)" ..
  have l: "fetch_listeners ?s = ?pre @ ?l # ?post"
    by (simp add: registered_def fetch_listeners_def)
  have p: "list_all (\<lambda>l'. thrown l' = None \<and> last_response l' = None) ?pre" by simp
  have t: "thrown ?l = None" by simp
  have r: "last_response ?l = Some (Fulfilled 0 (Some 7))" by simp
  have ef: "effects ?s = []" by (simp add: registered_def init_def)
  note th = first_response_is_returned [OF w e l p t r, of None upstream_ok]
  from th [THEN conjunct1] have a: "fst (dispatchFetch 0 None upstream_ok ?s) = Returns 7"
    by simp
  from th [THEN conjunct2, THEN conjunct1]
  have b: "effects (snd (dispatchFetch 0 None upstream_ok ?s)) = [''a'', ''b'']"
    unfolding ef by simp
  from w a b show ?thesis by (intro conjI)
qed

text \<open>
  Claim C1 as it is written fails: a listener that sets a response and then throws is the
  first whose turn sets a response, and that response does not reject, yet the
  \<^verbatim>\<open>catch\<close> of the loop makes the dispatch fail with the thrown error.
\<close>

theorem response_then_throw_counterexample:
  "fetch_listeners (registered ''fetch'' [[RespondWith (Plain (Some 7)), Throw (Error ''boom'')]]) =
     [[RespondWith (Plain (Some 7)), Throw (Error ''boom'')]] \<and>
   last_response (executed [RespondWith (Plain (Some 7)), Throw (Error ''boom'')]) =
     Some (Fulfilled 0 (Some 7)) \<and>
   fst (dispatchFetch 0 (Some ''http://upstream/'') upstream_ok
          (registered ''fetch'' [[RespondWith (Plain (Some 7)), Throw (Error ''boom'')]])) =
     Throws (Error ''boom'')"
  by (simp add: registered_def init_def fetch_listeners_def dispatchFetch_def
      dispatchFetch_listeners_def dispatchFetch_event_def Request_clone_def new_FetchEvent_def
      event_defs on_failure_def)

lemma failure_reached:
  assumes "wf s"
    and "dispatchFetch_event rq s = Some (c, ev, s2)"
    and "fetch_listeners s = pre @ l # post"
    and "list_all passes pre"
    and "failure l = Some err"
  shows "fetch_loop (fetch_listeners s) ev s2 = on_failure err ev (run_all (pre @ [l]) ev s2)"
proof -
  note st = dispatchFetch_event_start [OF assms(2)]
  note fr = dispatchFetch_event_fresh [OF assms(2,1)]
  from fr(1) have q: "slot_quiet s2 ev" by (simp add: slot_quiet_def)
  from passes_prefix [OF st(1) q assms(4), of "l # post"]
  have 1: "fetch_loop (pre @ l # post) ev s2 = fetch_loop (l # post) ev (run_all pre ev s2)"
    by simp
  from run_all_frame [of pre ev s2] st(1)
  have ev: "events (run_all pre ev s2) ev = Some (FetchEventObj c)" by simp
  from failure_turn [OF ev assms(5), of post] 1 show ?thesis
    by (simp add: assms(3) run_all_append)
qed

lemma exhausted_reached:
  assumes "wf s"
    and "dispatchFetch_event rq s = Some (c, ev, s2)"
    and "list_all passes (fetch_listeners s)"
  shows "fetch_loop (fetch_listeners s) ev s2 = (Fallback, run_all (fetch_listeners s) ev s2)"
proof -
  note st = dispatchFetch_event_start [OF assms(2)]
  note fr = dispatchFetch_event_fresh [OF assms(2,1)]
  from fr(1) have q: "slot_quiet s2 ev" by (simp add: slot_quiet_def)
  from passes_prefix [OF st(1) q assms(3), of "[]"] show ?thesis by simp
qed

lemma flag_after:
  assumes "wf s" and "dispatchFetch_event rq s = Some (c, ev, s2)"
  shows "passThroughMap (run_all ls ev s2) ev = Some True \<longleftrightarrow>
           list_ex (\<lambda>l. grants (executed l)) ls"
  using run_all_flag [OF dispatchFetch_event_start(1) [OF assms(2)], of ls]
    dispatchFetch_event_fresh(2) [OF assms(2,1)]
  by simp

text \<open>
  What the \<^verbatim>\<open>catch\<close> block does with the failure of a listener whose turn is reached.
  With the flag unset the dispatch fails with the listener's error. With the flag set and
  a failure whose \<^verbatim>\<open>stack\<close> can be read, the text is logged and the dispatch goes on
  with the code after the loop. With the flag set and a failure that is \<^verbatim>\<open>null\<close> or
  \<^verbatim>\<open>undefined\<close>, the dispatch fails with the \<^verbatim>\<open>TypeError\<close> of the read. In each
  case no later listener is called.
\<close>

lemma listener_failure_handling:
  assumes "wf s"
    and "dispatchFetch_event rq s = Some (c, ev, s2)"
    and "fetch_listeners s = pre @ l # post"
    and "list_all passes pre"
    and "failure l = Some err"
  shows "dispatchFetch rq up tr s =
           (if passThroughMap (run_all (pre @ [l]) ev s2) ev = Some True
            then (case stack err of
                    Inl type_error \<Rightarrow> (Throws type_error, run_all (pre @ [l]) ev s2)
                  | Inr msg \<Rightarrow>
                      fallback rq up tr ev
                        ((run_all (pre @ [l]) ev s2)\<lparr>warnings := warnings s @ [msg]\<rparr>))
            else (Throws err, run_all (pre @ [l]) ev s2)) \<and>
         (passThroughMap (run_all (pre @ [l]) ev s2) ev = Some True \<longleftrightarrow>
            list_ex (\<lambda>l'. grants (executed l')) (pre @ [l])) \<and>
         effects (snd (dispatchFetch rq up tr s)) =
           effects s @ concat (map (\<lambda>l'. emits (executed l')) (pre @ [l])) \<and>
         fetched (run_all (pre @ [l]) ev s2) = fetched s \<and>
         warnings (run_all (pre @ [l]) ev s2) = warnings s"
proof -
  note st = dispatchFetch_event_start [OF assms(2)]
  let ?s3 = "run_all (pre @ [l]) ev s2"
  note loop = failure_reached [OF assms]
  note fl = flag_after [OF assms(1,2), of "pre @ [l]"]
  from run_all_frame [of "pre @ [l]" ev s2] st
  have w: "warnings ?s3 = warnings s" and f: "fetched ?s3 = fetched s" by simp_all
  from run_all_effects [OF st(1), of "pre @ [l]"] st(7)
  have e: "effects ?s3 = effects s @ concat (map (\<lambda>l'. emits (executed l')) (pre @ [l]))"
    by simp
  obtain x s4 where lo: "on_failure err ev ?s3 = (x, s4)" by (cases "on_failure err ev ?s3")
  from on_failure_frame [OF lo] e
  have e4: "effects s4 = effects s @ concat (map (\<lambda>l'. emits (executed l')) (pre @ [l]))"
    by simp
  from loop lo have l4: "fetch_loop (fetch_listeners s) ev s2 = (x, s4)" by simp
  note d = dispatchFetch_unfold(2) [OF assms(2) l4, of up tr]
  have x: "x = Fallback \<or> (\<exists>er. x = Failed er)"
    using lo by (auto simp: on_failure_def split: if_splits sum.splits)
  have ef: "effects (snd (dispatchFetch rq up tr s)) =
      effects s @ concat (map (\<lambda>l'. emits (executed l')) (pre @ [l]))"
  proof (cases x)
    case Fallback
    obtain y s5 where fb: "fallback rq up tr ev s4 = (y, s5)" by (cases "fallback rq up tr ev s4")
    from fallback_frame [OF fb] d Fallback fb e4 show ?thesis by simp
  next
    case (Failed er)
    with d e4 show ?thesis by simp
  qed (use x in auto)
  have main: "dispatchFetch rq up tr s =
           (if passThroughMap ?s3 ev = Some True
            then (case stack err of
                    Inl type_error \<Rightarrow> (Throws type_error, ?s3)
                  | Inr msg \<Rightarrow>
                      fallback rq up tr ev (?s3\<lparr>warnings := warnings s @ [msg]\<rparr>))
            else (Throws err, ?s3))"
    using d lo w by (auto simp: on_failure_def split: if_splits sum.splits)
  from main fl ef f w show ?thesis by (intro conjI)
qed

lemmas fetch_eval =
  registered_def init_def fetch_listeners_def dispatchFetch_def dispatchFetch_listeners_def
  dispatchFetch_event_def Request_clone_def new_FetchEvent_def event_defs on_failure_def
  fallback_def headers_delete_def headers_set_def request0_def upstream_ok_def Let_def

text \<open>
  Claim C2 says that a failure of a listener with the pass-through flag set is logged as
  a warning and that the dispatch then goes on with the fallback. A listener that allows
  pass-through and throws \<^verbatim>\<open>null\<close> fails with the flag set; the \<^verbatim>\<open>catch\<close> block reads
  \<^verbatim>\<open>e.stack\<close> of the thrown value, that read throws, and the dispatch fails with the
  \<^verbatim>\<open>TypeError\<close>: nothing is logged and the transport is not called, although an upstream
  is given.
\<close>

theorem pass_through_failure_with_null_is_not_logged:
  "failure [PassThroughOnException, Throw (Thrown JNull)] = Some (Thrown JNull) \<and>
   passThroughMap (snd (dispatchFetch 0 (Some ''http://upstream/'') upstream_ok
     (registered ''fetch'' [[PassThroughOnException, Throw (Thrown JNull)]]))) 2 = Some True \<and>
   fst (dispatchFetch 0 (Some ''http://upstream/'') upstream_ok
     (registered ''fetch'' [[PassThroughOnException, Throw (Thrown JNull)]])) =
     Throws cannot_read_stack \<and>
   warnings (snd (dispatchFetch 0 (Some ''http://upstream/'') upstream_ok
     (registered ''fetch'' [[PassThroughOnException, Throw (Thrown JNull)]]))) = [] \<and>
   fetched (snd (dispatchFetch 0 (Some ''http://upstream/'') upstream_ok
     (registered ''fetch'' [[PassThroughOnException, Throw (Thrown JNull)]]))) = []"
  by (simp add: failure_def fetch_eval)

text \<open>
  The code after the loop, without an upstream: whenever the loop is left without a
  response the dispatch fails with the configuration error. The loop is left so when the
  listeners are exhausted, and when a listener fails with pass-through allowed and a
  failure whose \<^verbatim>\<open>stack\<close> can be read.
\<close>

lemma fallback_without_upstream:
  assumes "wf s"
    and "dispatchFetch_event rq s = Some (c, ev, s2)"
  shows "(\<forall>s3. dispatchFetch_listeners rq s = Some (ev, Fallback, s3) \<longrightarrow>
            dispatchFetch rq None tr s = (Throws no_upstream, s3)) \<and>
         (list_all passes (fetch_listeners s) \<longrightarrow>
            dispatchFetch rq None tr s = (Throws no_upstream, run_all (fetch_listeners s) ev s2)) \<and>
         (\<forall>pre l post err msg.
            fetch_listeners s = pre @ l # post \<and> list_all passes pre \<and> failure l = Some err \<and>
            list_ex (\<lambda>l'. grants (executed l')) (pre @ [l]) \<and> stack err = Inr msg \<longrightarrow>
            dispatchFetch rq None tr s =
              (Throws no_upstream,
               (run_all (pre @ [l]) ev s2)\<lparr>warnings := warnings s @ [msg]\<rparr>))"
proof (intro conjI allI impI)
  fix s3
  assume "dispatchFetch_listeners rq s = Some (ev, Fallback, s3)"
  then show "dispatchFetch rq None tr s = (Throws no_upstream, s3)"
    by (simp add: dispatchFetch_def fallback_def)
next
  assume "list_all passes (fetch_listeners s)"
  from exhausted_reached [OF assms this]
  have 1: "fetch_loop (fetch_listeners s) ev s2 = (Fallback, run_all (fetch_listeners s) ev s2)" .
  from dispatchFetch_unfold(2) [OF assms(2) 1, of None tr]
  show "dispatchFetch rq None tr s = (Throws no_upstream, run_all (fetch_listeners s) ev s2)"
    by (simp add: fallback_def)
next
  fix pre l post err msg
  assume h: "fetch_listeners s = pre @ l # post \<and> list_all passes pre \<and> failure l = Some err \<and>
            list_ex (\<lambda>l'. grants (executed l')) (pre @ [l]) \<and> stack err = Inr msg"
  let ?s3 = "run_all (pre @ [l]) ev s2"
  from h have l: "fetch_listeners s = pre @ l # post" and p: "list_all passes pre"
    and f: "failure l = Some err" and g: "list_ex (\<lambda>l'. grants (executed l')) (pre @ [l])"
    and t: "stack err = Inr msg"
    by blast+
  from listener_failure_handling [OF assms l p f, of None tr] g t
  show "dispatchFetch rq None tr s =
      (Throws no_upstream, ?s3\<lparr>warnings := warnings s @ [msg]\<rparr>)"
    by (simp add: fallback_def)
qed

text \<open>
  Claim C4 says that a dispatch without an upstream in which a listener failed with
  pass-through set fails with the configuration error. A listener that allows
  pass-through and responds with a promise rejected with \<^verbatim>\<open>undefined\<close> fails with the
  flag set; the read of \<^verbatim>\<open>e.stack\<close> in the \<^verbatim>\<open>catch\<close> block throws, the code after the
  loop is not reached, and the dispatch fails with the \<^verbatim>\<open>TypeError\<close> of the read,
  which is not the configuration error.
\<close>

theorem pass_through_failure_with_undefined_is_no_configuration_error:
  "failure [PassThroughOnException, RespondWith (Prom (Rejected 0 (Thrown JUndefined)))] =
     Some (Thrown JUndefined) \<and>
   passThroughMap (snd (dispatchFetch 0 None upstream_ok
     (registered ''fetch''
        [[PassThroughOnException, RespondWith (Prom (Rejected 0 (Thrown JUndefined)))]]))) 2 =
     Some True \<and>
   fst (dispatchFetch 0 None upstream_ok
     (registered ''fetch''
        [[PassThroughOnException, RespondWith (Prom (Rejected 0 (Thrown JUndefined)))]])) =
     Throws cannot_read_stack \<and>
   cannot_read_stack \<noteq> no_upstream"
  by (simp add: failure_def fetch_eval cannot_read_stack_def no_upstream_def)

text \<open>
  Claim C3, amended. In a fetch dispatch that leaves the loop without a response, with an
  upstream given: the event wraps a duplicate of the inbound request, a new object with
  the contents of the original; the original is unchanged while the listeners run; the
  \<^verbatim>\<open>host\<close> header is then deleted from the original, and the transport is called with
  the original request. The duplicate is not what is fetched, and it keeps what the
  listeners did to it.
\<close>

theorem fallback_fetches_original_request:
  assumes "wf s"
    and "dispatchFetch_event rq s = Some (c, ev, s2)"
    and "requests s rq = Some q"
    and "dispatchFetch_listeners rq s = Some (ev, Fallback, s3)"
  shows "c \<noteq> rq \<and> events s2 ev = Some (FetchEventObj c) \<and> requests s2 c = Some q \<and>
         requests s3 rq = Some q \<and>
         fst (dispatchFetch rq (Some u) tr s) = await (tr (headers_delete ''host'' q)) \<and>
         fetched (snd (dispatchFetch rq (Some u) tr s)) =
           fetched s @ [(rq, headers_delete ''host'' q)] \<and>
         requests (snd (dispatchFetch rq (Some u) tr s)) rq = Some (headers_delete ''host'' q) \<and>
         requests (snd (dispatchFetch rq (Some u) tr s)) c = requests s3 c"
proof -
  note st = dispatchFetch_event_start [OF assms(2)]
  note fr = dispatchFetch_event_fresh [OF assms(2,1)]
  from assms(2,4) st(6) have loop: "fetch_loop (fetch_listeners s) ev s2 = (Fallback, s3)"
    by (simp add: dispatchFetch_listeners_def)
  from fr(3) have ne: "rq \<noteq> c" by simp
  from fetch_loop_requests [OF loop st(1) ne] fr(4) assms(3)
  have r3: "requests s3 rq = Some q" by simp
  from fetch_loop_frame [OF loop] st(9) have f3: "fetched s3 = fetched s" by simp
  from dispatchFetch_unfold(2) [OF assms(2) loop, of "Some u" tr]
  have d: "dispatchFetch rq (Some u) tr s = fallback rq (Some u) tr ev s3" by simp
  have 1: "fst (fallback rq (Some u) tr ev s3) = await (tr (headers_delete ''host'' q))"
    using r3 by (cases "tr (headers_delete ''host'' q)") (simp_all add: fallback_def Let_def)
  have 2: "fetched (snd (fallback rq (Some u) tr ev s3)) =
      fetched s @ [(rq, headers_delete ''host'' q)]"
    using r3 f3 by (cases "tr (headers_delete ''host'' q)") (simp_all add: fallback_def Let_def)
  have 3: "requests (snd (fallback rq (Some u) tr ev s3)) rq = Some (headers_delete ''host'' q)"
    using r3 by (cases "tr (headers_delete ''host'' q)") (simp_all add: fallback_def Let_def)
  have 4: "requests (snd (fallback rq (Some u) tr ev s3)) c = requests s3 c"
    using r3 fr(3) by (cases "tr (headers_delete ''host'' q)") (simp_all add: fallback_def Let_def)
  from fr(3) st(1) st(3) assms(3) r3 d 1 2 3 4 show ?thesis by simp
qed

text \<open>
  Claim C3 as it is written fails. A listener sets a header on \<^verbatim>\<open>e.request\<close> and gives
  no response. The event (object 2) wraps the duplicate (object 1); the transport is called
  with the original (object 0), which does not carry the header the listener set; the
  original has lost its \<^verbatim>\<open>host\<close> header, and the duplicate still has it.
\<close>

theorem fallback_fetches_original_request_counterexample:
  "events (snd (dispatchFetch 0 (Some ''http://upstream/'') upstream_ok
       (registered ''fetch'' [[SetRequestHeader ''x-seen'' ''1'']]))) 2 = Some (FetchEventObj 1) \<and>
   map fst (fetched (snd (dispatchFetch 0 (Some ''http://upstream/'') upstream_ok
       (registered ''fetch'' [[SetRequestHeader ''x-seen'' ''1'']])))) = [0] \<and>
   map (\<lambda>(r, q). headers q ''x-seen'') (fetched (snd (dispatchFetch 0 (Some ''http://upstream/'') upstream_ok
       (registered ''fetch'' [[SetRequestHeader ''x-seen'' ''1'']])))) = [None] \<and>
   map_option (\<lambda>q. headers q ''host'') (requests (registered ''fetch'' [[SetRequestHeader ''x-seen'' ''1'']]) 0) =
     Some (Some ''localhost:8787'') \<and>
   map_option (\<lambda>q. headers q ''host'') (requests (snd (dispatchFetch 0 (Some ''http://upstream/'') upstream_ok
       (registered ''fetch'' [[SetRequestHeader ''x-seen'' ''1'']]))) 0) = Some None \<and>
   map_option (\<lambda>q. headers q ''host'') (requests (snd (dispatchFetch 0 (Some ''http://upstream/'') upstream_ok
       (registered ''fetch'' [[SetRequestHeader ''x-seen'' ''1'']]))) 1) = Some (Some ''localhost:8787'') \<and>
   map_option (\<lambda>q. headers q ''x-seen'') (requests (snd (dispatchFetch 0 (Some ''http://upstream/'') upstream_ok
       (registered ''fetch'' [[SetRequestHeader ''x-seen'' ''1'']]))) 1) = Some (Some ''1'')"
  by (simp add: fetch_eval)


text \<open>The same dispatch: the original request, without its \<^verbatim>\<open>host\<close> header, is fetched.\<close>

theorem fallback_fetches_original_request_witness:
  "wf (registered ''fetch'' [[SetRequestHeader ''x-seen'' ''1'']]) \<and>
   requests (registered ''fetch'' [[SetRequestHeader ''x-seen'' ''1'']]) 0 = Some request0 \<and>
   fst (dispatchFetch 0 (Some ''http://upstream/'') upstream_ok
          (registered ''fetch'' [[SetRequestHeader ''x-seen'' ''1'']])) = Returns 100 \<and>
   fetched (snd (dispatchFetch 0 (Some ''http://upstream/'') upstream_ok
          (registered ''fetch'' [[SetRequestHeader ''x-seen'' ''1'']]))) =
     [(0, headers_delete ''host'' request0)] \<and>
   requests (snd (dispatchFetch 0 (Some ''http://upstream/'') upstream_ok
          (registered ''fetch'' [[SetRequestHeader ''x-seen'' ''1'']]))) 0 =
     Some (headers_delete ''host'' request0)"
proof -
  let ?s = "registered ''fetch'' [[SetRequestHeader ''x-seen'' ''1'']]"
  have w: "wf ?s" by (simp add: wf_def registered_def init_def)
  have r: "requests ?s 0 = Some request0" by (simp add: registered_def init_def)
  from dispatchFetch_event_exists [OF r] obtain s2
    where e: "dispatchFetch_event 0 ?s = Some (nextId ?s, Suc (nextId ?s), s2)" ..
  have n: "nextId ?s = 1" and f: "fetched ?s = []" by (simp_all add: registered_def init_def)
  have "\<exists>s3. dispatchFetch_listeners 0 ?s = Some (Suc (nextId ?s), Fallback, s3)"
    by (simp add: registered_def init_def fetch_listeners_def dispatchFetch_listeners_def
        dispatchFetch_event_def Request_clone_def new_FetchEvent_def)
  then obtain s3 where l: "dispatchFetch_listeners 0 ?s = Some (Suc (nextId ?s), Fallback, s3)" ..
  note t = fallback_fetches_original_request [OF w e r l, of "''http://upstream/''" upstream_ok]
  from t have a: "fst (dispatchFetch 0 (Some ''http://upstream/'') upstream_ok ?s) = Returns 100"
    by (simp add: upstream_ok_def)
  from t have b: "fetched (snd (dispatchFetch 0 (Some ''http://upstream/'') upstream_ok ?s)) =
      [(0, headers_delete ''host'' request0)]"
    unfolding f by simp
  from t have c: "requests (snd (dispatchFetch 0 (Some ''http://upstream/'') upstream_ok ?s)) 0 =
      Some (headers_delete ''host'' request0)" by simp
  from w r a b c show ?thesis by (intro conjI)
qed







lemma fallback_Returns:
  "fallback rq up tr ev s = (Returns r, s') \<Longrightarrow>
     responseWaitUntil s' r = Some ev \<and> waitUntilMap s' = waitUntilMap s"
  by (auto simp: fallback_def Let_def split: option.splits promise.splits)

text \<open>
  Claim C10. The accessor attached to the response that \<^verbatim>\<open>dispatchFetch\<close> returns reads
  the task list of the event each time it is called: on the final state it aggregates the
  tasks registered during the dispatch, and after further calls of \<^verbatim>\<open>waitUntil\<close> on the
  event, made after the dispatch has returned, it aggregates those as well.
\<close>

theorem accessor_reads_task_list_anew:
  assumes "dispatchFetch_event rq s = Some (c, ev, s2)"
    and "dispatchFetch rq up tr s = (Returns r, s')"
  shows "responseWaitUntil s' r = Some ev \<and>
         (\<exists>ps. waitUntilMap s' ev = Some ps \<and>
            (\<forall>clock. call_waitUntil s' r clock = await (Promise_all clock ps)) \<and>
            (\<forall>clock p. call_waitUntil (waitUntil ev p s') r clock =
               await (Promise_all clock (ps @ [p]))) \<and>
            (\<forall>clock p p'. call_waitUntil (waitUntil ev p' (waitUntil ev p s')) r clock =
               await (Promise_all clock (ps @ [p, p']))))"
proof -
  note st = dispatchFetch_event_start [OF assms(1)]
  obtain x s3 where l: "fetch_loop (fetch_listeners s) ev s2 = (x, s3)"
    by (cases "fetch_loop (fetch_listeners s) ev s2")
  from fetch_loop_tasks_Some [OF l st(2)] obtain ps where w3: "waitUntilMap s3 ev = Some ps"
    by auto
  note d = dispatchFetch_unfold(2) [OF assms(1) l, of up tr]
  have rw: "responseWaitUntil s' r = Some ev" and w: "waitUntilMap s' ev = Some ps"
  proof -
    show "responseWaitUntil s' r = Some ev"
    proof (cases x)
      case (Responded r')
      with d assms(2) have "r' = r" "s3 = s'" by simp_all
      with Responded l fetch_loop_Responded [of "fetch_listeners s" ev s2 r s'] show ?thesis
        by simp
    next
      case Fallback
      with d assms(2) have "fallback rq up tr ev s3 = (Returns r, s')" by simp
      from fallback_Returns [OF this] show ?thesis by simp
    qed (use d assms(2) in simp_all)
    show "waitUntilMap s' ev = Some ps"
    proof (cases x)
      case (Responded r')
      with d assms(2) w3 show ?thesis by simp
    next
      case Fallback
      with d assms(2) have "fallback rq up tr ev s3 = (Returns r, s')" by simp
      from fallback_Returns [OF this] w3 show ?thesis by simp
    qed (use d assms(2) in simp_all)
  qed
  from rw w have 1: "call_waitUntil s' r clock = await (Promise_all clock ps)" for clock
    by (simp add: call_waitUntil_def waitUntil_accessor_def)
  from rw w have 2: "call_waitUntil (waitUntil ev p s') r clock =
      await (Promise_all clock (ps @ [p]))" for clock p
    by (simp add: call_waitUntil_def waitUntil_accessor_def waitUntil_def)
  from rw w have 3: "call_waitUntil (waitUntil ev p' (waitUntil ev p s')) r clock =
      await (Promise_all clock (ps @ [p, p']))" for clock p p'
    by (simp add: call_waitUntil_def waitUntil_accessor_def waitUntil_def)
  from rw w 1 2 3 show ?thesis by blast
qed

text \<open>A task registered after the dispatch has returned is in the next result.\<close>

theorem accessor_reads_task_list_anew_witness:
  "fst (dispatchFetch 0 None upstream_ok
     (registered ''fetch'' [[WaitUntil (Fulfilled 1 (JNum 1)), RespondWith (Plain (Some 7))]])) =
     Returns 7 \<and>
   call_waitUntil (snd (dispatchFetch 0 None upstream_ok
     (registered ''fetch'' [[WaitUntil (Fulfilled 1 (JNum 1)), RespondWith (Plain (Some 7))]]))) 7 3 =
     Returns [JNum 1] \<and>
   call_waitUntil (waitUntil 2 (Fulfilled 9 (JNum 2)) (snd (dispatchFetch 0 None upstream_ok
     (registered ''fetch'' [[WaitUntil (Fulfilled 1 (JNum 1)), RespondWith (Plain (Some 7))]])))) 7 3 =
     Returns [JNum 1, JNum 2]"
proof -
  let ?s = "registered ''fetch'' [[WaitUntil (Fulfilled 1 (JNum 1)), RespondWith (Plain (Some 7))]]"
  let ?s' = "snd (dispatchFetch 0 None upstream_ok ?s)"
  have n: "nextId ?s = 1" by (simp add: registered_def init_def)
  have "requests ?s 0 = Some request0" by (simp add: registered_def init_def)
  from dispatchFetch_event_exists [OF this] obtain s2
    where e: "dispatchFetch_event 0 ?s = Some (nextId ?s, Suc (nextId ?s), s2)" ..
  have a: "fst (dispatchFetch 0 None upstream_ok ?s) = Returns 7" by (simp add: fetch_eval)
  then have d: "dispatchFetch 0 None upstream_ok ?s = (Returns 7, ?s')"
    by (cases "dispatchFetch 0 None upstream_ok ?s") simp
  have w: "waitUntilMap ?s' 2 = Some [Fulfilled 1 (JNum 1)]" by (simp add: fetch_eval)
  from accessor_reads_task_list_anew [OF e d] obtain ps
    where ps: "waitUntilMap ?s' (Suc (nextId ?s)) = Some ps"
      and 1: "\<forall>clock. call_waitUntil ?s' 7 clock = await (Promise_all clock ps)"
      and 2: "\<forall>clock p. call_waitUntil (waitUntil (Suc (nextId ?s)) p ?s') 7 clock =
          await (Promise_all clock (ps @ [p]))"
    by blast
  from ps w have p: "ps = [Fulfilled 1 (JNum 1)]" unfolding n by (simp add: numeral_2_eq_2)
  from 1 have "call_waitUntil ?s' 7 3 = await (Promise_all 3 ps)" by blast
  then have b: "call_waitUntil ?s' 7 3 = Returns [JNum 1]"
    unfolding p by (simp add: Promise_all_def)
  from 2 have "call_waitUntil (waitUntil (Suc (nextId ?s)) (Fulfilled 9 (JNum 2)) ?s') 7 3 =
      await (Promise_all 3 (ps @ [Fulfilled 9 (JNum 2)]))" by blast
  then have c: "call_waitUntil (waitUntil 2 (Fulfilled 9 (JNum 2)) ?s') 7 3 = Returns [JNum 1, JNum 2]"
    unfolding p n by (simp add: Promise_all_def numeral_2_eq_2)
  from a b c show ?thesis by (intro conjI)
qed

text \<open>
  Registration under a name that \<^verbatim>\<open>Object.prototype\<close> does not have appends the
  listener, with a warning when the name is neither \<^verbatim>\<open>fetch\<close> nor \<^verbatim>\<open>scheduled\<close>; the
  two dispatch functions read those two names only.
\<close>

lemma addEventListener_own:
  assumes "type \<notin> set Object_prototype_keys"
  shows "addEventListener type l s =
           (None,
            s\<lparr>warnings := (if type \<noteq> ''fetch'' \<and> type \<noteq> ''scheduled''
                            then warnings s @ [invalid_event_type type] else warnings s),
              listeners := (listeners s)(type \<mapsto>
                 (case listeners s type of None \<Rightarrow> [] | Some ls \<Rightarrow> ls) @ [l])\<rparr>)"
  using assms
  by (auto simp: addEventListener_def has_property_def Let_def split: option.splits)

lemma dispatch_reads_two_tags:
  "type \<noteq> ''fetch'' \<Longrightarrow> fetch_listeners (s\<lparr>listeners := (listeners s)(type := x)\<rparr>) = fetch_listeners s"
  "type \<noteq> ''scheduled'' \<Longrightarrow>
     scheduled_listeners (s\<lparr>listeners := (listeners s)(type := x)\<rparr>) = scheduled_listeners s"
  by (simp_all add: fetch_listeners_def scheduled_listeners_def)

text \<open>
  Claim C7 says that a listener registered under any other name than \<^verbatim>\<open>fetch\<close> and
  \<^verbatim>\<open>scheduled\<close> is still appended, after the warning. For a name inherited from
  \<^verbatim>\<open>Object.prototype\<close>, such as \<^verbatim>\<open>toString\<close>, the test \<^verbatim>\<open>type in this._listeners\<close>
  holds although no list was made, \<^verbatim>\<open>push\<close> is called on the inherited member, and
  \<^verbatim>\<open>addEventListener\<close> throws after the warning: the listener is not registered.
\<close>

theorem inherited_property_name_is_not_registered:
  "''toString'' \<noteq> ''fetch'' \<and> ''toString'' \<noteq> ''scheduled'' \<and>
   addEventListener ''toString'' [Emit ''h''] init =
     (Some not_a_function, init\<lparr>warnings := [invalid_event_type ''toString'']\<rparr>) \<and>
   listeners (snd (addEventListener ''toString'' [Emit ''h''] init)) ''toString'' = None"
  by (simp add: addEventListener_def has_property_def Object_prototype_keys_def init_def)

end
